theory Spec2Isabelle
  imports Main "HOL-Library.Word"
begin

unbundle bit_operations_syntax

section \<open>The cache simulator \<open>csim.c\<close>\<close>

text \<open>
  A shallow embedding of \<open>csim.c\<close>: the cache engine \<open>simulate\<close>, the trace parser
  \<open>process_trace_file\<close> and the part of \<open>main\<close> that validates the geometry, runs the
  parser and sweeps the cache for dirty lines.

  Conventions of the embedding.
  \<^item> A \<open>cache_line_t\<close> is a record. Its \<open>valid\<close> and \<open>dirty\<close> fields are C \<open>int\<close>s that
    only ever hold 0 or 1; they are kept as integers because the code compares them with
    \<open>== 0\<close> in one place and \<open>== 1\<close> in another. The tag is a 64-bit word.
  \<^item> The cache is the flat array of \<open>S * E\<close> lines in set-major order, a list; the pointer
    \<open>cache_set = cache + set * E\<close> is the offset \<open>base\<close> into that list and
    \<open>(cache_set + i)->f\<close> is field \<open>f\<close> of element \<open>base + i\<close>.
  \<^item> The geometry values \<open>s\<close>, \<open>b\<close>, \<open>E\<close> are natural numbers inside the engine and the
    parser: \<open>main\<close> rejects negative values before either runs.
  \<^item> Each \<open>for\<close> loop is a recursive function over the loop index that returns the
    updated array together with the final index.
\<close>

subsection \<open>Data\<close>

record cache_line =
  valid :: int
  tag :: "64 word"
  dirty :: int

text \<open>
  Modelled from the spec: the type \<open>csim_stats_t\<close> is declared in \<open>cachelab.h\<close>, which is
  not part of the sources. The spec describes its five fields as unsigned integer counters
  that start at zero; they are natural numbers here.
\<close>

record csim_stats =
  hits :: nat
  misses :: nat
  evictions :: nat
  dirty_bytes :: nat
  dirty_evictions :: nat

type_synonym cache = "cache_line list"

subsection \<open>The engine: \<open>simulate\<close>\<close>

datatype scan_result = Hit nat | Invalid nat | Full

text \<open>
  The scan \<open>for (i = 0; i < E; i++)\<close> of \<open>simulate\<close>: it stops at the first invalid line
  (\<open>res = 0\<close>, \<open>j = i\<close>), stops at the first line whose tag matches (the hit branch), and
  otherwise runs to \<open>E\<close> (\<open>res = -1\<close>).
\<close>

function scan_lines :: "cache \<Rightarrow> nat \<Rightarrow> nat \<Rightarrow> 64 word \<Rightarrow> nat \<Rightarrow> scan_result" where
  "scan_lines c base E tg i =
     (if i < E then
        (if valid (c ! (base + i)) = 0 then Invalid i
         else if tag (c ! (base + i)) = tg then Hit i
         else scan_lines c base E tg (i + 1))
      else Full)"
  by pat_completeness auto
termination
  by (relation "measure (\<lambda>(c, base, E, tg, i). E - i)") auto

declare scan_lines.simps [simp del]

text \<open>
  The loop of the hit branch,
  \<open>for (j = i; (j < E - 1) && ((cache_set + j + 1)->valid == 1); j++)\<close>, which copies the
  tag and the dirty flag of line \<open>j + 1\<close> into line \<open>j\<close>.
\<close>

function shift_hit :: "cache \<Rightarrow> nat \<Rightarrow> nat \<Rightarrow> nat \<Rightarrow> cache \<times> nat" where
  "shift_hit c base E j =
     (if j < E - 1 \<and> valid (c ! (base + j + 1)) = 1 then
        shift_hit
          (c[base + j := (c ! (base + j))\<lparr>tag := tag (c ! (base + j + 1)),
                                          dirty := dirty (c ! (base + j + 1))\<rparr>])
          base E (j + 1)
      else (c, j))"
  by pat_completeness auto
termination
  by (relation "measure (\<lambda>(c, base, E, j). E - 1 - j)") auto

declare shift_hit.simps [simp del]

text \<open>
  The loop of the eviction branch, \<open>for (k = 0; k < E - 1; k++)\<close>, which moves every line
  one position towards the start of the set.
\<close>

function shift_evict :: "cache \<Rightarrow> nat \<Rightarrow> nat \<Rightarrow> nat \<Rightarrow> cache \<times> nat" where
  "shift_evict c base E k =
     (if k < E - 1 then
        shift_evict
          (c[base + k := (c ! (base + k))\<lparr>tag := tag (c ! (base + k + 1)),
                                          dirty := dirty (c ! (base + k + 1))\<rparr>])
          base E (k + 1)
      else (c, k))"
  by pat_completeness auto
termination
  by (relation "measure (\<lambda>(c, base, E, k). E - 1 - k)") auto

declare shift_evict.simps [simp del]

text \<open>\<open>if (strcmp(op, "S") == 0) line->dirty = 1;\<close>\<close>

definition mark_store :: "string \<Rightarrow> cache_line \<Rightarrow> cache_line" where
  "mark_store op l = (if op = ''S'' then l\<lparr>dirty := 1\<rparr> else l)"

text \<open>
  \<open>simulate(cache, tag, set, E, B, stats, op)\<close>. The array and the statistics are
  mutated in place by the C code and returned here.
\<close>

definition simulate ::
  "cache \<Rightarrow> 64 word \<Rightarrow> 64 word \<Rightarrow> nat \<Rightarrow> nat \<Rightarrow> csim_stats \<Rightarrow> string \<Rightarrow> cache \<times> csim_stats" where
  "simulate c tg st E B stats op =
     (let base = unat st * E in
      case scan_lines c base E tg 0 of
        Hit i \<Rightarrow>
          (let stats1 = stats\<lparr>hits := hits stats + 1\<rparr>;
               (c1, j) = shift_hit c base E i;
               c2 = c1[base + j := (c1 ! (base + j))\<lparr>tag := tg\<rparr>];
               c3 = c2[base + j := mark_store op (c2 ! (base + j))]
           in (c3, stats1))
      | Invalid j \<Rightarrow>
          (let stats1 = stats\<lparr>misses := misses stats + 1\<rparr>;
               c1 = c[base + j := (c ! (base + j))\<lparr>tag := tg, valid := 1\<rparr>];
               c2 = c1[base + j := mark_store op (c1 ! (base + j))]
           in (c2, stats1))
      | Full \<Rightarrow>
          (let stats1 = stats\<lparr>misses := misses stats + 1\<rparr>;
               stats2 = stats1\<lparr>evictions := evictions stats1 + 1\<rparr>;
               stats3 = (if dirty (c ! base) = 1
                         then stats2\<lparr>dirty_evictions := dirty_evictions stats2 + B\<rparr>
                         else stats2);
               (c1, k) = shift_evict c base E 0;
               c2 = c1[base + k := (c1 ! (base + k))\<lparr>tag := tg, dirty := 0\<rparr>];
               c3 = c2[base + k := mark_store op (c2 ! (base + k))]
           in (c3, stats3)))"

subsection \<open>The C library functions the parser calls\<close>

text \<open>
  The parser reads the trace with \<open>fgets\<close>, cuts each line with \<open>strtok\<close> and converts
  the numerals with \<open>strtoull\<close> and \<open>strtoul\<close>. These belong to the C library; they are
  modelled after ISO C (7.21.7.2, 7.24.5.8, 7.22.1.4) on strings as lists of bytes. A C
  string ends at its first NUL byte.
\<close>

definition newline :: char where
  "newline = CHR 0x0A"

definition c_str :: "string \<Rightarrow> string" where
  "c_str buf = takeWhile (\<lambda>c. c \<noteq> CHR 0x00) buf"

text \<open>
  \<open>fgets(buf, n, f)\<close> stores at most \<open>n - 1\<close> bytes and stops after a newline; it returns
  NULL (here \<open>None\<close>) when the file is at its end. The second component is the unread
  remainder of the file.
\<close>

fun fgets_chars :: "nat \<Rightarrow> string \<Rightarrow> string \<times> string" where
  "fgets_chars n [] = ([], [])"
| "fgets_chars n (c # cs) =
     (if n = 0 then ([], c # cs)
      else if c = newline then ([c], cs)
      else (case fgets_chars (n - 1) cs of (l, r) \<Rightarrow> (c # l, r)))"

definition fgets :: "nat \<Rightarrow> string \<Rightarrow> (string \<times> string) option" where
  "fgets n f = (if f = [] then None else Some (fgets_chars (n - 1) f))"

text \<open>
  \<open>strtok\<close>: skip leading delimiters; the token runs to the next delimiter, which is
  overwritten by NUL, and the saved pointer is set behind it. The result is the token
  (\<open>None\<close> for NULL) and the saved pointer, which the next call \<open>strtok(NULL, ...)\<close>
  starts from.
\<close>

definition strtok :: "string \<Rightarrow> string \<Rightarrow> string option \<times> string" where
  "strtok str delim =
     (let s1 = dropWhile (\<lambda>c. c \<in> set delim) str in
      if s1 = [] then (None, [])
      else (Some (takeWhile (\<lambda>c. c \<notin> set delim) s1),
            drop 1 (dropWhile (\<lambda>c. c \<notin> set delim) s1)))"

definition isspace :: "char \<Rightarrow> bool" where
  "isspace c = (c \<in> set [CHR 0x20, CHR 0x09, CHR 0x0A, CHR 0x0B, CHR 0x0C, CHR 0x0D])"

text \<open>The value of a digit in bases up to 36; 36 for a byte that is no digit.\<close>

definition digit_val :: "char \<Rightarrow> nat" where
  "digit_val c =
     (let n = (of_char c :: nat) in
      if 48 \<le> n \<and> n \<le> 57 then n - 48
      else if 97 \<le> n \<and> n \<le> 122 then n - 87
      else if 65 \<le> n \<and> n \<le> 90 then n - 55
      else 36)"

definition is_digit :: "nat \<Rightarrow> char \<Rightarrow> bool" where
  "is_digit base c = (digit_val c < base)"

definition digits_val :: "nat \<Rightarrow> string \<Rightarrow> nat" where
  "digits_val base ds = foldl (\<lambda>acc c. acc * base + digit_val c) 0 ds"

text \<open>
  \<open>strtoull(nptr, &endptr, base)\<close> for base 10 or 16: white space, an optional sign, for
  base 16 an optional \<open>0x\<close> that is followed by a hexadecimal digit, then the longest run
  of digits. Without a digit nothing is converted: the value is 0 and \<open>endptr = nptr\<close>. A
  value above \<open>2^64 - 1\<close> is returned as \<open>ULLONG_MAX\<close> (and \<open>errno\<close> is set, which the
  caller does not read); a minus sign negates the value in the unsigned type. The result
  is the value and the string \<open>endptr\<close> points to.
\<close>

definition strtoull :: "string \<Rightarrow> nat \<Rightarrow> 64 word \<times> string" where
  "strtoull nptr base =
     (let s1 = dropWhile isspace nptr;
          neg = (s1 \<noteq> [] \<and> hd s1 = CHR ''-'');
          s2 = (if s1 \<noteq> [] \<and> (hd s1 = CHR ''-'' \<or> hd s1 = CHR ''+'') then tl s1 else s1);
          prefixed = (base = 16 \<and> 3 \<le> length s2 \<and> s2 ! 0 = CHR ''0''
                      \<and> (s2 ! 1 = CHR ''x'' \<or> s2 ! 1 = CHR ''X'') \<and> is_digit 16 (s2 ! 2));
          s3 = (if prefixed then drop 2 s2 else s2);
          ds = takeWhile (is_digit base) s3;
          v = digits_val base ds
      in if ds = [] then (0, nptr)
         else if 18446744073709551615 < v then (- 1, dropWhile (is_digit base) s3)
         else ((if neg then - of_nat v else of_nat v), dropWhile (is_digit base) s3))"

text \<open>\<open>unsigned long\<close> has 64 bits on the LP64 platforms the simulator is built for.\<close>

definition strtoul :: "string \<Rightarrow> nat \<Rightarrow> 64 word \<times> string" where
  "strtoul nptr base = strtoull nptr base"

subsection \<open>The parser: \<open>process_trace_file\<close>\<close>

definition LINELEN :: nat where
  "LINELEN = 30"

definition MAXADDR :: "64 word" where
  "MAXADDR = 0xFFFFFFFFFFFFFFFF"

definition MAXSIZE :: "64 word" where
  "MAXSIZE = 1024"

definition MAXBITS :: nat where
  "MAXBITS = 64"

text \<open>
  \<open>tag = addr >> (s + b)\<close>. For \<open>s + b < 64\<close> this is the shift of ISO C. A shift of a 64-bit
  operand by 64 or more is undefined in ISO C; the x86-64 shift instruction takes the count
  modulo 64, so that \<open>addr >> 64\<close> leaves \<open>addr\<close> unshifted, and the model follows the
  instruction there. \<open>main\<close> hands the parser only geometries with \<open>s + b \<le> 60\<close>.
\<close>

definition addr_tag :: "nat \<Rightarrow> nat \<Rightarrow> 64 word \<Rightarrow> 64 word" where
  "addr_tag s b addr = drop_bit ((s + b) mod 64) addr"

text \<open>
  \<open>if (s == 0) set = 0; else set = (addr << (MAXBITS - s - b)) >> (MAXBITS - s);\<close>
\<close>

definition addr_set :: "nat \<Rightarrow> nat \<Rightarrow> 64 word \<Rightarrow> 64 word" where
  "addr_set s b addr =
     (if s = 0 then 0
      else drop_bit (MAXBITS - s) (push_bit (MAXBITS - s - b) addr))"

text \<open>
  The body of the \<open>while (fgets(...))\<close> loop up to the call of \<open>simulate\<close>: \<open>None\<close> is
  \<open>return 1\<close>, \<open>Some (op, tag, set)\<close> are the arguments passed to \<open>simulate\<close>. The first
  \<open>strtok\<close> cannot return NULL, because the line holds a newline, which is no space.
\<close>

definition trace_line :: "nat \<Rightarrow> nat \<Rightarrow> string \<Rightarrow> (string \<times> 64 word \<times> 64 word) option" where
  "trace_line s b linebuf =
     (let line = c_str linebuf in
      if newline \<notin> set line then None
      else
        (case strtok line [CHR 0x20] of
           (None, _) \<Rightarrow> None
         | (Some op, saved1) \<Rightarrow>
             if op \<noteq> ''L'' \<and> op \<noteq> ''S'' then None
             else
               (case strtok saved1 '','' of
                  (None, _) \<Rightarrow> None
                | (Some addr_str, saved2) \<Rightarrow>
                    (case strtok saved2 [newline] of
                       (None, _) \<Rightarrow> None
                     | (Some size_str, _) \<Rightarrow>
                         (case strtoull addr_str 16 of
                            (addr, endptr) \<Rightarrow>
                              if endptr \<noteq> [] \<or> addr > MAXADDR then None
                              else
                                (case strtoul size_str 10 of
                                   (sz, endptr2) \<Rightarrow>
                                     if endptr2 \<noteq> [] \<or> sz > MAXSIZE then None
                                     else Some (op, addr_tag s b addr, addr_set s b addr)))))))"

lemma fgets_chars_length: "length (snd (fgets_chars n cs)) \<le> length cs"
  by (induction n cs rule: fgets_chars.induct) (auto split: prod.splits)

lemma fgets_chars_shorter:
  "0 < n \<Longrightarrow> cs \<noteq> [] \<Longrightarrow> length (snd (fgets_chars n cs)) < length cs"
proof (cases cs)
  case (Cons c ds)
  assume "0 < n"
  with Cons fgets_chars_length [of "n - 1" ds] show ?thesis
    by (auto split: prod.splits)
qed simp

text \<open>
  \<open>process_trace_file\<close> on a trace file that could be opened, given by its content. The
  result is the returned code (1 for an error) with the array and the statistics as the
  call leaves them.
\<close>

function process_trace_file ::
  "cache \<Rightarrow> nat \<Rightarrow> nat \<Rightarrow> nat \<Rightarrow> nat \<Rightarrow> string \<Rightarrow> csim_stats \<Rightarrow> int \<times> cache \<times> csim_stats" where
  "process_trace_file c s E b B trace stats =
     (case fgets LINELEN trace of
        None \<Rightarrow> (0, c, stats)
      | Some (linebuf, rest) \<Rightarrow>
          (case trace_line s b linebuf of
             None \<Rightarrow> (1, c, stats)
           | Some (op, tg, st) \<Rightarrow>
               (case simulate c tg st E B stats op of
                  (c', stats') \<Rightarrow> process_trace_file c' s E b B rest stats')))"
  by pat_completeness auto
termination
proof (relation "measure (\<lambda>(c, s, E, b, B, trace, stats). length trace)", goal_cases)
  case 1
  show ?case by simp
next
  case (2 c s E b B trace stats x2 linebuf rest)
  then have "trace \<noteq> []" and "snd (fgets_chars (LINELEN - 1) trace) = rest"
    by (auto simp: fgets_def split: if_splits)
  with fgets_chars_shorter [of "LINELEN - 1" trace] show ?case
    by (simp add: LINELEN_def)
qed

declare process_trace_file.simps [simp del]

subsection \<open>The front end: \<open>main\<close>\<close>

text \<open>
  What a run of \<open>main\<close> ends with: \<open>exit(1)\<close> after an error message, \<open>printSummary\<close> of
  the statistics followed by \<open>exit(0)\<close>, or \<open>Int_out_of_range\<close>: the run has used an \<open>int\<close>
  whose value ISO C does not define (see \<open>main\<close> below), and nothing is said about what a
  compiled program does from there.
\<close>

datatype outcome = Exit_failure | Summary csim_stats | Int_out_of_range

text \<open>
  The sweep after a successful parse,
  \<open>for (i = 0; i < S * E; i++) if ((cache + i)->dirty == 1) stats->dirty_bytes += B;\<close>
\<close>

function count_dirty :: "cache \<Rightarrow> nat \<Rightarrow> nat \<Rightarrow> csim_stats \<Rightarrow> nat \<Rightarrow> csim_stats" where
  "count_dirty c n B stats i =
     (if i < n then
        count_dirty c n B
          (if dirty (c ! i) = 1 then stats\<lparr>dirty_bytes := dirty_bytes stats + B\<rparr> else stats)
          (i + 1)
      else stats)"
  by pat_completeness auto
termination
  by (relation "measure (\<lambda>(c, n, B, stats, i). n - i)") auto

declare count_dirty.simps [simp del]

definition init_line :: cache_line where
  "init_line = \<lparr>valid = 0, tag = MAXADDR, dirty = 0\<rparr>"

definition init_cache :: "nat \<Rightarrow> nat \<Rightarrow> cache" where
  "init_cache S E = replicate (S * E) init_line"

definition init_stats :: csim_stats where
  "init_stats = \<lparr>hits = 0, misses = 0, evictions = 0, dirty_bytes = 0, dirty_evictions = 0\<rparr>"

text \<open>
  \<open>main\<close> from the point where \<open>getopt\<close> has delivered \<open>s\<close>, \<open>E\<close>, \<open>b\<close> and a trace file that
  can be opened: the two geometry checks, the initialisation of the array and of the
  statistics, the parse, and the sweep before \<open>printSummary\<close>. Both calls of \<open>malloc\<close> are
  taken to succeed.

  \<open>S\<close>, \<open>B\<close> and the loop bound \<open>S * E\<close> are 32-bit \<open>int\<close>s: \<open>S = (int)pow(2, s)\<close>,
  \<open>B = (int)pow(2, b)\<close>. The conversions give the powers of two for \<open>s \<le> 30\<close> and \<open>b \<le> 30\<close>;
  from 31 on the power does not fit an \<open>int\<close> and ISO C leaves the conversion undefined, as it
  does the product \<open>S * E\<close> above \<open>INT_MAX = 2147483647\<close>. The geometry checks read only
  \<open>s\<close>, \<open>E\<close> and \<open>b\<close>, so the model lets them decide first; a geometry that passes them and
  needs an \<open>int\<close> out of range ends as \<open>Int_out_of_range\<close>. (The conversion instruction
  of x86-64 delivers \<open>INT_MIN\<close> for a value out of range. In a build that uses it, every
  dirty line adds \<open>(unsigned long)B = 2^64 - 2^31\<close> to \<open>dirty_bytes\<close> when \<open>b\<close> is 31 or
  more, and the size passed to \<open>malloc\<close> is that of \<open>2^64 - 2^31\<close> sets when \<open>s\<close> is 31 or
  more.)
\<close>

definition INT_MAX :: int where
  "INT_MAX = 2147483647"

definition main :: "int \<Rightarrow> int \<Rightarrow> int \<Rightarrow> string \<Rightarrow> outcome" where
  "main s E b trace =
     (if s + b > 64 then Exit_failure
      else if s < 0 \<or> E \<le> 0 \<or> b < 0 then Exit_failure
      else if 30 < s \<or> 30 < b \<or> INT_MAX < 2 ^ nat s * E then Int_out_of_range
      else
        (let S = (2::nat) ^ nat s;
             B = (2::nat) ^ nat b;
             c = init_cache S (nat E)
         in case process_trace_file c (nat s) (nat E) (nat b) B trace init_stats of
              (rc, c', stats') \<Rightarrow>
                if rc = 1 then Exit_failure
                else Summary (count_dirty c' (S * nat E) B stats' 0)))"

subsection \<open>Notions used to state the properties\<close>

text \<open>
  An access record as the parser hands it to \<open>simulate\<close>: the operation, the tag and the
  set index. \<open>run\<close> applies a sequence of records in order, as the loop of
  \<open>process_trace_file\<close> does with the records it has parsed.
\<close>

type_synonym access = "string \<times> 64 word \<times> 64 word"

fun run :: "nat \<Rightarrow> nat \<Rightarrow> access list \<Rightarrow> cache \<times> csim_stats \<Rightarrow> cache \<times> csim_stats" where
  "run E B [] cs = cs"
| "run E B ((op, tg, st) # as) (c, stats) = run E B as (simulate c tg st E B stats op)"

text \<open>The \<open>E\<close> lines of set \<open>i\<close>, in the order of their positions.\<close>

definition set_lines :: "nat \<Rightarrow> cache \<Rightarrow> nat \<Rightarrow> cache_line list" where
  "set_lines E c i = take E (drop (i * E) c)"

text \<open>The tags a sequence of accesses sent to set \<open>i\<close>, oldest first.\<close>

definition set_history :: "access list \<Rightarrow> nat \<Rightarrow> 64 word list" where
  "set_history as i = map (\<lambda>a. fst (snd a)) (filter (\<lambda>a. unat (snd (snd a)) = i) as)"

text \<open>
  The recency order of a history: each tag once, ordered by its last access (the least
  recently accessed tag first), cut to the \<open>E\<close> most recently accessed tags.
\<close>

definition lru_order :: "nat \<Rightarrow> 64 word list \<Rightarrow> 64 word list" where
  "lru_order E h = (let r = remdups h in drop (length r - E) r)"

text \<open>
  The state of one set after its history \<open>h\<close> of accessed tags: the valid lines come
  first and hold the tags of the recency order, the remaining lines are invalid and clean.
  \<open>cache_ok\<close> says this of every set of the cache after the accesses \<open>as\<close>.
\<close>

definition set_ok :: "nat \<Rightarrow> 64 word list \<Rightarrow> cache_line list \<Rightarrow> bool" where
  "set_ok E h ls \<longleftrightarrow>
     length ls = E \<and>
     map tag (take (length (lru_order E h)) ls) = lru_order E h \<and>
     (\<forall>l\<in>set (take (length (lru_order E h)) ls). valid l = 1 \<and> (dirty l = 0 \<or> dirty l = 1)) \<and>
     (\<forall>l\<in>set (drop (length (lru_order E h)) ls). valid l = 0 \<and> dirty l = 0)"

definition cache_ok :: "nat \<Rightarrow> nat \<Rightarrow> access list \<Rightarrow> cache \<Rightarrow> bool" where
  "cache_ok S E as c \<longleftrightarrow>
     length c = S * E \<and> (\<forall>i<S. set_ok E (set_history as i) (set_lines E c i))"

text \<open>
  The records the loop of \<open>process_trace_file\<close> applies to the cache: the parsed lines of
  the trace up to its end or up to the first line that is rejected.
\<close>

function applied_records :: "nat \<Rightarrow> nat \<Rightarrow> string \<Rightarrow> access list" where
  "applied_records s b trace =
     (case fgets LINELEN trace of
        None \<Rightarrow> []
      | Some (linebuf, rest) \<Rightarrow>
          (case trace_line s b linebuf of
             None \<Rightarrow> []
           | Some a \<Rightarrow> a # applied_records s b rest))"
  by pat_completeness auto
termination
proof (relation "measure (\<lambda>(s, b, trace). length trace)", goal_cases)
  case 1
  show ?case by simp
next
  case (2 s b trace x2 linebuf rest)
  then have "trace \<noteq> []" and "snd (fgets_chars (LINELEN - 1) trace) = rest"
    by (auto simp: fgets_def split: if_splits)
  with fgets_chars_shorter [of "LINELEN - 1" trace] show ?case
    by (simp add: LINELEN_def)
qed

declare applied_records.simps [simp del]

section \<open>The loops of the engine\<close>

text \<open>
  The loops only look at the lines from \<open>base\<close> on, so each loop on the whole array is the
  loop on the part of the array that starts at the addressed set.
\<close>

lemma scan_lines_offset:
  "scan_lines (pre @ r) (length pre) E tg i = scan_lines r 0 E tg i"
proof (induction "E - i" arbitrary: i)
  case 0
  then show ?case
    by (subst scan_lines.simps [of "pre @ r"], subst scan_lines.simps [of r]) simp
next
  case (Suc n)
  then have "scan_lines (pre @ r) (length pre) E tg (i + 1) = scan_lines r 0 E tg (i + 1)"
    by simp
  then show ?case
    by (subst scan_lines.simps [of "pre @ r"], subst scan_lines.simps [of r]) simp
qed

lemma nth_append_Suc_length: "(pre @ r) ! Suc (length pre + j) = r ! Suc j"
  by (metis add_Suc_right nth_append_length_plus)

lemma shift_hit_offset:
  "shift_hit (pre @ r) (length pre) E j =
     (pre @ fst (shift_hit r 0 E j), snd (shift_hit r 0 E j))"
proof (induction "E - 1 - j" arbitrary: j r)
  case 0
  then have stop: "\<not> j < E - 1" by simp
  have "shift_hit (pre @ r) (length pre) E j = (pre @ r, j)"
    using stop by (subst shift_hit.simps) simp
  moreover have "shift_hit r 0 E j = (r, j)"
    using stop by (subst shift_hit.simps) simp
  ultimately show ?case by simp
next
  case (Suc n)
  let ?r = "r[j := (r ! j)\<lparr>tag := tag (r ! Suc j), dirty := dirty (r ! Suc j)\<rparr>]"
  show ?case
  proof (cases "j < E - 1 \<and> valid (r ! Suc j) = 1")
    case True
    have "shift_hit (pre @ r) (length pre) E j = shift_hit (pre @ ?r) (length pre) E (Suc j)"
      using True
      by (subst shift_hit.simps) (simp add: nth_append_Suc_length list_update_append)
    also have "\<dots> = (pre @ fst (shift_hit ?r 0 E (Suc j)), snd (shift_hit ?r 0 E (Suc j)))"
      using Suc.hyps(2) by (intro Suc.hyps(1)) simp
    also have "shift_hit ?r 0 E (Suc j) = shift_hit r 0 E j"
      using True by (subst (2) shift_hit.simps) simp
    finally show ?thesis .
  next
    case False
    have "shift_hit (pre @ r) (length pre) E j = (pre @ r, j)"
      using False by (subst shift_hit.simps) (auto simp: nth_append_Suc_length)
    moreover have "shift_hit r 0 E j = (r, j)"
      using False by (subst shift_hit.simps) auto
    ultimately show ?thesis by simp
  qed
qed

lemma shift_evict_offset:
  "shift_evict (pre @ r) (length pre) E k =
     (pre @ fst (shift_evict r 0 E k), snd (shift_evict r 0 E k))"
proof (induction "E - 1 - k" arbitrary: k r)
  case 0
  then have stop: "\<not> k < E - 1" by simp
  have "shift_evict (pre @ r) (length pre) E k = (pre @ r, k)"
    using stop by (subst shift_evict.simps) simp
  moreover have "shift_evict r 0 E k = (r, k)"
    using stop by (subst shift_evict.simps) simp
  ultimately show ?case by simp
next
  case (Suc n)
  let ?r = "r[k := (r ! k)\<lparr>tag := tag (r ! Suc k), dirty := dirty (r ! Suc k)\<rparr>]"
  from Suc.hyps(2) have go: "k < E - 1" by simp
  have "shift_evict (pre @ r) (length pre) E k = shift_evict (pre @ ?r) (length pre) E (Suc k)"
    using go
    by (subst shift_evict.simps) (simp add: nth_append_Suc_length list_update_append)
  also have "\<dots> = (pre @ fst (shift_evict ?r 0 E (Suc k)), snd (shift_evict ?r 0 E (Suc k)))"
    using Suc.hyps(2) by (intro Suc.hyps(1)) simp
  also have "shift_evict ?r 0 E (Suc k) = shift_evict r 0 E k"
    using go by (subst (2) shift_evict.simps) simp
  finally show ?case .
qed

lemma line_copy_eq:
  "valid a = valid b \<Longrightarrow> a\<lparr>tag := tag b, dirty := dirty b\<rparr> = (b :: cache_line)"
  by simp

lemma rotate_step:
  assumes "Suc j < length vs"
  shows "take (Suc j) (vs[j := vs ! Suc j]) @ drop (Suc (Suc j)) (vs[j := vs ! Suc j])
           = take j vs @ drop (Suc j) vs"
proof -
  from assms have "take (Suc j) (vs[j := vs ! Suc j]) = take j vs @ [vs ! Suc j]"
    by (simp add: take_Suc_conv_app_nth)
  moreover from assms have "drop (Suc j) vs = vs ! Suc j # drop (Suc (Suc j)) vs"
    by (simp add: Cons_nth_drop_Suc)
  ultimately show ?thesis by simp
qed

lemma shift_hit_stop:
  assumes "\<not> (j < E - 1 \<and> valid (c ! (base + j + 1)) = 1)"
  shows "shift_hit c base E j = (c, j)"
  by (subst shift_hit.simps) (simp only: assms if_False)

lemma shift_hit_go:
  assumes "j < E - 1 \<and> valid (c ! (base + j + 1)) = 1"
  shows "shift_hit c base E j =
     shift_hit (c[base + j := (c ! (base + j))\<lparr>tag := tag (c ! (base + j + 1)),
                                          dirty := dirty (c ! (base + j + 1))\<rparr>]) base E (j + 1)"
  by (subst shift_hit.simps) (simp only: assms if_True simp_thms)

lemma shift_evict_stop:
  assumes "\<not> k < E - 1"
  shows "shift_evict c base E k = (c, k)"
  by (subst shift_evict.simps) (simp only: assms if_False)

lemma shift_evict_go:
  assumes "k < E - 1"
  shows "shift_evict c base E k =
     shift_evict (c[base + k := (c ! (base + k))\<lparr>tag := tag (c ! (base + k + 1)),
                                          dirty := dirty (c ! (base + k + 1))\<rparr>]) base E (k + 1)"
  by (subst shift_evict.simps) (simp only: assms if_True)

lemma shift_hit_valid_run:
  assumes "\<forall>l\<in>set vs. valid l = 1" and "j < length vs" and "length vs \<le> E"
    and "length vs < E \<longrightarrow> rest \<noteq> [] \<and> valid (hd rest) \<noteq> 1"
  shows "shift_hit (vs @ rest) 0 E j =
           (take j vs @ drop (Suc j) vs @ last vs # rest, length vs - 1)"
  using assms
proof (induction "length vs - 1 - j" arbitrary: j vs)
  case 0
  then have j: "j = length vs - 1" and ne: "vs \<noteq> []" by auto
  have stop: "\<not> (j < E - 1 \<and> valid ((vs @ rest) ! (0 + j + 1)) = 1)"
  proof (cases "length vs < E")
    case True
    with 0 j ne show ?thesis by (auto simp: nth_append hd_conv_nth)
  next
    case False
    with 0 j show ?thesis by simp
  qed
  have "take j vs = butlast vs" "drop (Suc j) vs = []"
    using j ne by (simp_all add: butlast_conv_take)
  then have "take j vs @ drop (Suc j) vs @ [last vs] = vs"
    using ne by simp
  then have "take j vs @ drop (Suc j) vs @ last vs # rest = vs @ rest"
    by (metis append.assoc append_Cons append_Nil)
  with shift_hit_stop [OF stop] j show ?case
    by simp
next
  case (Suc n)
  then have lt: "Suc j < length vs" by simp
  let ?vs = "vs[j := vs ! Suc j]"
  have v1: "valid (vs ! j) = 1" "valid (vs ! Suc j) = 1"
    using Suc.prems lt by simp_all
  have go: "j < E - 1 \<and> valid ((vs @ rest) ! (0 + j + 1)) = 1"
    using lt Suc.prems v1 by (simp add: nth_append)
  have upd: "(vs @ rest)[0 + j := ((vs @ rest) ! (0 + j))\<lparr>tag := tag ((vs @ rest) ! (0 + j + 1)),
                dirty := dirty ((vs @ rest) ! (0 + j + 1))\<rparr>] = ?vs @ rest"
    using lt v1 by (simp add: nth_append list_update_append line_copy_eq)
  have valid': "\<forall>l\<in>set ?vs. valid l = 1"
    using Suc.prems(1) lt by (auto dest!: set_update_subset_insert [THEN subsetD])
  have "shift_hit (?vs @ rest) 0 E (Suc j) =
          (take (Suc j) ?vs @ drop (Suc (Suc j)) ?vs @ last ?vs # rest, length ?vs - 1)"
    using Suc.hyps(2) Suc.prems lt valid'
    by (intro Suc.hyps(1)) auto
  moreover have "last ?vs = last vs"
    proof -
    from lt have "vs \<noteq> []" by auto
    with lt show ?thesis by (simp add: last_list_update)
  qed
  ultimately have "shift_hit (?vs @ rest) 0 E (Suc j) =
          (take j vs @ drop (Suc j) vs @ last vs # rest, length vs - 1)"
    using rotate_step [OF lt] by simp
  with shift_hit_go [OF go] upd show ?case
    by simp
qed

lemma shift_evict_valid_run:
  assumes "\<forall>l\<in>set vs. valid l = 1" and "k < length vs" and "length vs = E"
  shows "shift_evict (vs @ rest) 0 E k =
           (take k vs @ drop (Suc k) vs @ last vs # rest, length vs - 1)"
  using assms
proof (induction "length vs - 1 - k" arbitrary: k vs)
  case 0
  then have k: "k = length vs - 1" and ne: "vs \<noteq> []" by auto
  have stop: "\<not> k < E - 1"
    using 0 k by simp
  have "take k vs = butlast vs" "drop (Suc k) vs = []"
    using k ne by (simp_all add: butlast_conv_take)
  then have "take k vs @ drop (Suc k) vs @ [last vs] = vs"
    using ne by simp
  then have "take k vs @ drop (Suc k) vs @ last vs # rest = vs @ rest"
    by (metis append.assoc append_Cons append_Nil)
  with shift_evict_stop [OF stop] k show ?case
    by simp
next
  case (Suc n)
  then have lt: "Suc k < length vs" by simp
  let ?vs = "vs[k := vs ! Suc k]"
  have v1: "valid (vs ! k) = 1" "valid (vs ! Suc k) = 1"
    using Suc.prems lt by simp_all
  have go: "k < E - 1"
    using lt Suc.prems by simp
  have upd: "(vs @ rest)[0 + k := ((vs @ rest) ! (0 + k))\<lparr>tag := tag ((vs @ rest) ! (0 + k + 1)),
                dirty := dirty ((vs @ rest) ! (0 + k + 1))\<rparr>] = ?vs @ rest"
    using lt v1 by (simp add: nth_append list_update_append line_copy_eq)
  have valid': "\<forall>l\<in>set ?vs. valid l = 1"
    using Suc.prems(1) lt by (auto dest!: set_update_subset_insert [THEN subsetD])
  have "shift_evict (?vs @ rest) 0 E (Suc k) =
          (take (Suc k) ?vs @ drop (Suc (Suc k)) ?vs @ last ?vs # rest, length ?vs - 1)"
    using Suc.hyps(2) Suc.prems lt valid'
    by (intro Suc.hyps(1)) auto
  moreover have "last ?vs = last vs"
    proof -
    from lt have "vs \<noteq> []" by auto
    with lt show ?thesis by (simp add: last_list_update)
  qed
  ultimately have "shift_evict (?vs @ rest) 0 E (Suc k) =
          (take k vs @ drop (Suc k) vs @ last vs # rest, length vs - 1)"
    using rotate_step [OF lt] by simp
  with shift_evict_go [OF go] upd show ?case
    by simp
qed

lemma scan_lines_hit:
  assumes "\<forall>l\<in>set vs. valid l = 1" and "k < length vs" and "length vs \<le> E"
    and "tag (vs ! k) = tg" and "\<forall>m. i \<le> m \<and> m < k \<longrightarrow> tag (vs ! m) \<noteq> tg" and "i \<le> k"
  shows "scan_lines (vs @ rest) 0 E tg i = Hit k"
  using assms(5,6)
proof (induction "k - i" arbitrary: i)
  case 0
  then have "i = k" by simp
  with assms(1-4) show ?case
    by (subst scan_lines.simps) (simp add: nth_append)
next
  case (Suc n)
  then have "i < k" by simp
  with Suc.prems assms(1-3) have "i < E" "valid ((vs @ rest) ! (0 + i)) \<noteq> 0"
    "tag ((vs @ rest) ! (0 + i)) \<noteq> tg"
    by (simp_all add: nth_append)
  moreover have "scan_lines (vs @ rest) 0 E tg (i + 1) = Hit k"
    using Suc.hyps(2) Suc.prems \<open>i < k\<close> by (intro Suc.hyps(1)) auto
  ultimately show ?case
    by (subst scan_lines.simps) (simp only: if_True if_False)
qed

lemma scan_lines_miss:
  assumes "\<forall>l\<in>set vs. valid l = 1" and "length vs \<le> E"
    and "\<forall>m. i \<le> m \<and> m < length vs \<longrightarrow> tag (vs ! m) \<noteq> tg" and "i \<le> length vs"
    and "length vs < E \<longrightarrow> rest \<noteq> [] \<and> valid (hd rest) = 0"
  shows "scan_lines (vs @ rest) 0 E tg i = (if length vs < E then Invalid (length vs) else Full)"
  using assms(3,4)
proof (induction "length vs - i" arbitrary: i)
  case 0
  then have i: "i = length vs" by simp
  show ?case
  proof (cases "length vs < E")
    case True
    with assms(5) i show ?thesis
      by (subst scan_lines.simps) (auto simp: nth_append hd_conv_nth)
  next
    case False
    with assms(2) i show ?thesis
      by (subst scan_lines.simps) simp
  qed
next
  case (Suc n)
  then have "i < length vs" by simp
  with Suc.prems assms(1,2) have "i < E" "valid ((vs @ rest) ! (0 + i)) \<noteq> 0"
    "tag ((vs @ rest) ! (0 + i)) \<noteq> tg"
    by (simp_all add: nth_append)
  moreover have "scan_lines (vs @ rest) 0 E tg (i + 1) =
      (if length vs < E then Invalid (length vs) else Full)"
    using Suc.hyps(2) Suc.prems \<open>i < length vs\<close> by (intro Suc.hyps(1)) auto
  ultimately show ?case
    by (subst scan_lines.simps) (simp only: if_True if_False)
qed

lemma nth_mid: "(pre @ w @ x # t) ! (length pre + length w) = x"
  by (simp add: nth_append)

lemma update_mid: "(pre @ w @ x # t)[length pre + length w := y] = pre @ w @ y # t"
  by (simp add: list_update_append)

lemma simulate_hit:
  assumes base: "length pre = unat st * E"
    and valid: "\<forall>l\<in>set vs. valid l = 1" and invalid: "\<forall>l\<in>set is. valid l = 0"
    and E: "E = length vs + length is"
    and k: "k < length vs" "tag (vs ! k) = tg" "\<forall>m<k. tag (vs ! m) \<noteq> tg"
  shows "simulate (pre @ vs @ is @ post) tg st E B stats op =
    (pre @ take k vs @ drop (Suc k) vs @ mark_store op ((last vs)\<lparr>tag := tg\<rparr>) # is @ post,
     stats\<lparr>hits := hits stats + 1\<rparr>)"
proof -
  let ?w = "take k vs @ drop (Suc k) vs"
  have "scan_lines (vs @ is @ post) 0 E tg 0 = Hit k"
    using valid E k by (intro scan_lines_hit) auto
  then have scan: "scan_lines (pre @ vs @ is @ post) (length pre) E tg 0 = Hit k"
    by (simp only: scan_lines_offset)
  have gap: "length vs < E \<longrightarrow> is @ post \<noteq> [] \<and> valid (hd (is @ post)) \<noteq> 1"
    using E invalid by (cases "is") auto
  have "shift_hit (vs @ is @ post) 0 E k = (?w @ last vs # is @ post, length vs - 1)"
    using shift_hit_valid_run [of vs k E "is @ post"] valid E k(1) gap by simp
  then have shift: "shift_hit (pre @ vs @ is @ post) (length pre) E k =
      (pre @ ?w @ last vs # is @ post, length vs - 1)"
    by (simp only: shift_hit_offset fst_conv snd_conv)
  have idx: "length pre + (length vs - 1) = length pre + length ?w"
    using k(1) by simp
  show ?thesis
    unfolding simulate_def Let_def base [symmetric] scan scan_result.case shift prod.case idx
      nth_mid update_mid
    by simp
qed

lemma simulate_cold:
  assumes base: "length pre = unat st * E"
    and valid: "\<forall>l\<in>set vs. valid l = 1" and invalid: "valid i0 = 0"
    and E: "E = length vs + Suc (length is)"
    and miss: "tg \<notin> tag ` set vs"
  shows "simulate (pre @ vs @ i0 # is @ post) tg st E B stats op =
    (pre @ vs @ mark_store op (i0\<lparr>tag := tg, valid := 1\<rparr>) # is @ post,
     stats\<lparr>misses := misses stats + 1\<rparr>)"
proof -
  have "\<forall>m. 0 \<le> m \<and> m < length vs \<longrightarrow> tag (vs ! m) \<noteq> tg"
    using miss by (metis imageI nth_mem)
  then have "scan_lines (vs @ i0 # is @ post) 0 E tg 0 =
      (if length vs < E then Invalid (length vs) else Full)"
    using valid invalid E by (intro scan_lines_miss) auto
  then have scan: "scan_lines (pre @ vs @ i0 # is @ post) (length pre) E tg 0 = Invalid (length vs)"
    using E by (simp only: scan_lines_offset) simp
  show ?thesis
    unfolding simulate_def Let_def base [symmetric] scan scan_result.case nth_mid update_mid
    by simp
qed

lemma simulate_evict:
  assumes base: "length pre = unat st * E"
    and valid: "\<forall>l\<in>set vs. valid l = 1"
    and E: "E = length vs" "vs \<noteq> []"
    and miss: "tg \<notin> tag ` set vs"
  shows "simulate (pre @ vs @ post) tg st E B stats op =
    (pre @ tl vs @ mark_store op ((last vs)\<lparr>tag := tg, dirty := 0\<rparr>) # post,
     stats\<lparr>misses := misses stats + 1, evictions := evictions stats + 1,
       dirty_evictions := dirty_evictions stats + (if dirty (hd vs) = 1 then B else 0)\<rparr>)"
proof -
  have "\<forall>m. 0 \<le> m \<and> m < length vs \<longrightarrow> tag (vs ! m) \<noteq> tg"
    using miss by (metis imageI nth_mem)
  then have "scan_lines (vs @ post) 0 E tg 0 =
      (if length vs < E then Invalid (length vs) else Full)"
    using valid E by (intro scan_lines_miss) auto
  then have scan: "scan_lines (pre @ vs @ post) (length pre) E tg 0 = Full"
    using E by (simp only: scan_lines_offset) simp
  have "shift_evict (vs @ post) 0 E 0 = (take 0 vs @ drop (Suc 0) vs @ last vs # post, length vs - 1)"
    using valid E by (intro shift_evict_valid_run) auto
  then have shift: "shift_evict (pre @ vs @ post) (length pre) E 0 =
      (pre @ tl vs @ last vs # post, length vs - 1)"
    by (simp only: shift_evict_offset fst_conv snd_conv) (simp add: drop_Suc)
  have idx: "length pre + (length vs - 1) = length pre + length (tl vs)"
    by simp
  have first: "(pre @ vs @ post) ! (length pre) = hd vs"
    using E(2) by (simp add: nth_append hd_conv_nth)
  show ?thesis
    unfolding simulate_def Let_def base [symmetric] scan scan_result.case shift prod.case idx
      nth_mid update_mid first
    by simp
qed

section \<open>The recency order\<close>

lemma remdups_snoc: "remdups (h @ [t]) = filter (\<lambda>x. x \<noteq> t) (remdups h) @ [t]"
  by (induction h) auto

lemma distinct_lru_order: "distinct (lru_order E h)"
  by (simp add: lru_order_def Let_def)

lemma length_lru_order: "length (lru_order E h) \<le> E"
  by (simp add: lru_order_def Let_def)

lemma lru_order_Nil: "lru_order E [] = []"
  by (simp add: lru_order_def)

lemma filter_remove_nth:
  assumes "distinct w" and "k < length w"
  shows "filter (\<lambda>x. x \<noteq> w ! k) w = take k w @ drop (Suc k) w"
proof -
  have w: "w = take k w @ w ! k # drop (Suc k) w"
    using assms(2) by (simp add: id_take_nth_drop)
  then have "distinct (take k w @ w ! k # drop (Suc k) w)"
    using assms(1) by simp
  then have "w ! k \<notin> set (take k w)" "w ! k \<notin> set (drop (Suc k) w)"
    by auto
  then have "filter (\<lambda>x. x \<noteq> w ! k) (take k w) = take k w"
    "filter (\<lambda>x. x \<noteq> w ! k) (drop (Suc k) w) = drop (Suc k) w"
    by (auto simp: filter_id_conv)
  then have "filter (\<lambda>x. x \<noteq> w ! k) (take k w @ w ! k # drop (Suc k) w)
      = take k w @ drop (Suc k) w"
    by simp
  with w show ?thesis by simp
qed

lemma length_filter_distinct:
  "distinct w \<Longrightarrow> t \<in> set w \<Longrightarrow> length (filter (\<lambda>x. x \<noteq> t) w) + 1 = length w"
proof (induction w)
  case Nil
  then show ?case by simp
next
  case (Cons a w)
  show ?case
  proof (cases "a = t")
    case True
    with Cons.prems have "filter (\<lambda>x. x \<noteq> t) w = w" by (auto simp: filter_id_conv)
    with True show ?thesis by simp
  next
    case False
    with Cons show ?thesis by simp
  qed
qed

lemma lru_order_split:
  obtains p where "remdups h = p @ lru_order E h" and "length p = length (remdups h) - E"
proof -
  have "remdups h = take (length (remdups h) - E) (remdups h) @ lru_order E h"
    by (simp add: lru_order_def Let_def)
  moreover have "length (take (length (remdups h) - E) (remdups h)) = length (remdups h) - E"
    by simp
  ultimately show ?thesis using that by blast
qed

lemma lru_order_hit:
  assumes "t \<in> set (lru_order E h)"
  shows "lru_order E (h @ [t]) = filter (\<lambda>x. x \<noteq> t) (lru_order E h) @ [t]"
proof -
  let ?w = "lru_order E h"
  obtain p where r: "remdups h = p @ ?w" and p: "length p = length (remdups h) - E"
    by (rule lru_order_split)
  have "distinct (p @ ?w)" using r distinct_remdups [of h] by simp
  with assms have "t \<notin> set p" by auto
  then have fp: "filter (\<lambda>x. x \<noteq> t) p = p" by (auto simp: filter_id_conv)
  have "distinct ?w" by (rule distinct_lru_order)
  with assms have len: "length (filter (\<lambda>x. x \<noteq> t) ?w) + 1 = length ?w"
    by (intro length_filter_distinct)
  have r': "remdups (h @ [t]) = p @ filter (\<lambda>x. x \<noteq> t) ?w @ [t]"
    by (simp add: remdups_snoc r fp)
  have "length (remdups (h @ [t])) = length (remdups h)"
    using len by (simp add: r' r)
  then have "lru_order E (h @ [t]) = drop (length p) (remdups (h @ [t]))"
    by (simp add: lru_order_def Let_def p)
  then show ?thesis by (simp add: r')
qed

lemma lru_order_cold:
  assumes "t \<notin> set (lru_order E h)" and "length (lru_order E h) < E"
  shows "lru_order E (h @ [t]) = lru_order E h @ [t]"
proof -
  from assms(2) have short: "length (remdups h) < E"
    by (simp add: lru_order_def Let_def)
  then have w: "lru_order E h = remdups h" by (simp add: lru_order_def Let_def)
  with assms(1) have "filter (\<lambda>x. x \<noteq> t) (remdups h) = remdups h"
    by (auto simp: filter_id_conv)
  then have "remdups (h @ [t]) = remdups h @ [t]" by (simp add: remdups_snoc)
  with short w show ?thesis by (simp add: lru_order_def Let_def)
qed

lemma lru_order_evict:
  assumes "t \<notin> set (lru_order E h)" and "length (lru_order E h) = E" and "0 < E"
  shows "lru_order E (h @ [t]) = tl (lru_order E h) @ [t]"
proof -
  let ?w = "lru_order E h"
  obtain p where r: "remdups h = p @ ?w" and p: "length p = length (remdups h) - E"
    by (rule lru_order_split)
  let ?p = "filter (\<lambda>x. x \<noteq> t) p"
  from assms(1) have fw: "filter (\<lambda>x. x \<noteq> t) ?w = ?w" by (auto simp: filter_id_conv)
  have r': "remdups (h @ [t]) = ?p @ ?w @ [t]"
    by (simp add: remdups_snoc r fw)
  have "length (remdups (h @ [t])) - E = length ?p + 1"
    using assms(2) by (simp add: r')
  then have "lru_order E (h @ [t]) = drop (length ?p + 1) (?p @ ?w @ [t])"
    by (simp add: lru_order_def Let_def r')
  also have "\<dots> = drop 1 (?w @ [t])" by simp
  also have "\<dots> = tl ?w @ [t]"
    using assms(2,3) by (cases ?w) auto
  finally show ?thesis .
qed

section \<open>Every access keeps the layout of the sets\<close>

lemma mark_store_fields [simp]:
  "tag (mark_store op l) = tag l" "valid (mark_store op l) = valid l"
  "dirty (mark_store op l) = (if op = ''S'' then 1 else dirty l)"
  by (simp_all add: mark_store_def)

lemma set_ok_parts:
  assumes "set_ok E h ls"
  obtains vs "is" where "ls = vs @ is" and "length vs = length (lru_order E h)"
    and "map tag vs = lru_order E h"
    and "\<forall>l\<in>set vs. valid l = 1 \<and> (dirty l = 0 \<or> dirty l = 1)"
    and "\<forall>l\<in>set is. valid l = 0 \<and> dirty l = 0"
    and "E = length vs + length is"
proof -
  let ?n = "length (lru_order E h)"
  have n: "?n \<le> E" by (rule length_lru_order)
  from assms have len: "length ls = E" by (simp add: set_ok_def)
  show ?thesis
  proof (rule that [of "take ?n ls" "drop ?n ls"])
    show "ls = take ?n ls @ drop ?n ls" by simp
    show "length (take ?n ls) = ?n" using n len by simp
    show "map tag (take ?n ls) = lru_order E h" using assms by (simp add: set_ok_def)
    show "\<forall>l\<in>set (take ?n ls). valid l = 1 \<and> (dirty l = 0 \<or> dirty l = 1)"
      using assms by (simp add: set_ok_def)
    show "\<forall>l\<in>set (drop ?n ls). valid l = 0 \<and> dirty l = 0"
      using assms by (simp add: set_ok_def)
    show "E = length (take ?n ls) + length (drop ?n ls)" using n len by simp
  qed
qed

lemma set_okI:
  assumes "length vs = length (lru_order E h)" and "map tag vs = lru_order E h"
    and "\<forall>l\<in>set vs. valid l = 1 \<and> (dirty l = 0 \<or> dirty l = 1)"
    and "\<forall>l\<in>set is. valid l = 0 \<and> dirty l = 0"
    and "E = length vs + length is"
  shows "set_ok E h (vs @ is)"
  using assms by (simp add: set_ok_def)

lemma simulate_set_hit:
  assumes ok: "set_ok E h ls" and base: "length pre = unat st * E"
    and hit: "tg \<in> set (lru_order E h)"
  shows "\<exists>ls'. simulate (pre @ ls @ post) tg st E B stats op =
            (pre @ ls' @ post, stats\<lparr>hits := hits stats + 1\<rparr>) \<and> set_ok E (h @ [tg]) ls'"
proof -
  let ?w = "lru_order E h"
  from ok obtain vs "is" where ls: "ls = vs @ is" and len: "length vs = length ?w"
    and tags: "map tag vs = ?w"
    and vs: "\<forall>l\<in>set vs. valid l = 1 \<and> (dirty l = 0 \<or> dirty l = 1)"
    and "is": "\<forall>l\<in>set is. valid l = 0 \<and> dirty l = 0"
    and E: "E = length vs + length is"
    by (rule set_ok_parts)
  from hit obtain k where k: "k < length ?w" "?w ! k = tg"
    by (auto simp: in_set_conv_nth)
  have kv: "k < length vs" using k(1) len by simp
  have tagk: "tag (vs ! k) = tg"
    using k kv tags by (metis nth_map)
  have first: "\<forall>m<k. tag (vs ! m) \<noteq> tg"
  proof (intro allI impI)
    fix m assume "m < k"
    with kv have "tag (vs ! m) = ?w ! m" using tags by (metis nth_map order.strict_trans)
    moreover have "?w ! m \<noteq> ?w ! k"
      using \<open>m < k\<close> k(1) distinct_lru_order [of E h] by (simp add: nth_eq_iff_index_eq)
    ultimately show "tag (vs ! m) \<noteq> tg" using k(2) by simp
  qed
  have ne: "vs \<noteq> []" using kv by auto
  let ?x = "mark_store op ((last vs)\<lparr>tag := tg\<rparr>)"
  let ?vs' = "take k vs @ drop (Suc k) vs @ [?x]"
  have sim: "simulate (pre @ vs @ is @ post) tg st E B stats op =
      (pre @ take k vs @ drop (Suc k) vs @ ?x # is @ post, stats\<lparr>hits := hits stats + 1\<rparr>)"
  proof (rule simulate_hit [OF base _ _ E kv tagk first])
    show "\<forall>l\<in>set vs. valid l = 1" using vs by simp
    show "\<forall>l\<in>set is. valid l = 0" using "is" by simp
  qed
  have w': "lru_order E (h @ [tg]) = take k ?w @ drop (Suc k) ?w @ [tg]"
    using lru_order_hit [OF hit] filter_remove_nth [OF distinct_lru_order k(1)] k(2)
    by simp
  have "set_ok E (h @ [tg]) (?vs' @ is)"
  proof (rule set_okI)
    show "length ?vs' = length (lru_order E (h @ [tg]))"
      using kv len by (simp add: w')
    show "map tag ?vs' = lru_order E (h @ [tg])"
      using tags by (simp add: w' take_map [symmetric] drop_map [symmetric])
    show "\<forall>l\<in>set ?vs'. valid l = 1 \<and> (dirty l = 0 \<or> dirty l = 1)"
      using vs ne by (auto dest: in_set_takeD in_set_dropD)
    show "\<forall>l\<in>set is. valid l = 0 \<and> dirty l = 0" by fact
    show "E = length ?vs' + length is" using E kv by simp
  qed
  with sim ls show ?thesis by auto
qed

lemma simulate_set_cold:
  assumes ok: "set_ok E h ls" and base: "length pre = unat st * E"
    and miss: "tg \<notin> set (lru_order E h)" and room: "length (lru_order E h) < E"
  shows "\<exists>ls'. simulate (pre @ ls @ post) tg st E B stats op =
            (pre @ ls' @ post, stats\<lparr>misses := misses stats + 1\<rparr>) \<and> set_ok E (h @ [tg]) ls'"
proof -
  let ?w = "lru_order E h"
  from ok obtain vs "is" where ls: "ls = vs @ is" and len: "length vs = length ?w"
    and tags: "map tag vs = ?w"
    and vs: "\<forall>l\<in>set vs. valid l = 1 \<and> (dirty l = 0 \<or> dirty l = 1)"
    and "is": "\<forall>l\<in>set is. valid l = 0 \<and> dirty l = 0"
    and E: "E = length vs + length is"
    by (rule set_ok_parts)
  from room len E have "length is \<noteq> 0" by linarith
  then obtain i0 is' where is': "is = i0 # is'" by (cases "is") auto
  let ?x = "mark_store op (i0\<lparr>tag := tg, valid := 1\<rparr>)"
  have notin: "tg \<notin> tag ` set vs"
    using miss tags by (metis set_map)
  have sim: "simulate (pre @ vs @ i0 # is' @ post) tg st E B stats op =
      (pre @ vs @ ?x # is' @ post, stats\<lparr>misses := misses stats + 1\<rparr>)"
  proof (rule simulate_cold [OF base _ _ _ notin])
    show "\<forall>l\<in>set vs. valid l = 1" using vs by simp
    show "valid i0 = 0" using "is" is' by simp
    show "E = length vs + Suc (length is')" using E is' by simp
  qed
  have w': "lru_order E (h @ [tg]) = ?w @ [tg]"
    by (rule lru_order_cold [OF miss room])
  have "set_ok E (h @ [tg]) ((vs @ [?x]) @ is')"
  proof (rule set_okI)
    show "length (vs @ [?x]) = length (lru_order E (h @ [tg]))"
      using len by (simp add: w')
    show "map tag (vs @ [?x]) = lru_order E (h @ [tg])"
      using tags by (simp add: w')
    show "\<forall>l\<in>set (vs @ [?x]). valid l = 1 \<and> (dirty l = 0 \<or> dirty l = 1)"
      using vs "is" is' by auto
    show "\<forall>l\<in>set is'. valid l = 0 \<and> dirty l = 0" using "is" is' by simp
    show "E = length (vs @ [?x]) + length is'" using E is' by simp
  qed
  with sim ls is' show ?thesis by auto
qed

lemma simulate_set_evict:
  assumes ok: "set_ok E h ls" and base: "length pre = unat st * E" and pos: "0 < E"
    and miss: "tg \<notin> set (lru_order E h)" and full: "length (lru_order E h) = E"
  shows "\<exists>ls'. simulate (pre @ ls @ post) tg st E B stats op =
            (pre @ ls' @ post,
             stats\<lparr>misses := misses stats + 1, evictions := evictions stats + 1,
               dirty_evictions := dirty_evictions stats + (if dirty (hd ls) = 1 then B else 0)\<rparr>)
          \<and> set_ok E (h @ [tg]) ls'"
proof -
  let ?w = "lru_order E h"
  from ok obtain vs "is" where ls: "ls = vs @ is" and len: "length vs = length ?w"
    and tags: "map tag vs = ?w"
    and vs: "\<forall>l\<in>set vs. valid l = 1 \<and> (dirty l = 0 \<or> dirty l = 1)"
    and "is": "\<forall>l\<in>set is. valid l = 0 \<and> dirty l = 0"
    and E: "E = length vs + length is"
    by (rule set_ok_parts)
  from full len E have "length is = 0" and lv: "E = length vs" by linarith+
  then have nil: "is = []" by simp
  from pos lv have ne: "vs \<noteq> []" by auto
  let ?x = "mark_store op ((last vs)\<lparr>tag := tg, dirty := 0\<rparr>)"
  have notin: "tg \<notin> tag ` set vs"
    using miss tags by (metis set_map)
  have sim: "simulate (pre @ vs @ post) tg st E B stats op =
      (pre @ tl vs @ ?x # post,
       stats\<lparr>misses := misses stats + 1, evictions := evictions stats + 1,
         dirty_evictions := dirty_evictions stats + (if dirty (hd vs) = 1 then B else 0)\<rparr>)"
  proof (rule simulate_evict [OF base _ lv ne notin])
    show "\<forall>l\<in>set vs. valid l = 1" using vs by simp
  qed
  have w': "lru_order E (h @ [tg]) = tl ?w @ [tg]"
    by (rule lru_order_evict [OF miss full pos])
  have "set_ok E (h @ [tg]) ((tl vs @ [?x]) @ [])"
  proof (rule set_okI)
    show "length (tl vs @ [?x]) = length (lru_order E (h @ [tg]))"
      using len ne by (simp add: w')
    show "map tag (tl vs @ [?x]) = lru_order E (h @ [tg])"
      using tags by (simp add: w' map_tl)
    show "\<forall>l\<in>set (tl vs @ [?x]). valid l = 1 \<and> (dirty l = 0 \<or> dirty l = 1)"
      using vs ne by (auto dest: list.set_sel(2))
    show "\<forall>l\<in>set []. valid l = 0 \<and> dirty l = 0" by simp
    show "E = length (tl vs @ [?x]) + length []" using lv ne by simp
  qed
  with sim ls nil show ?thesis by auto
qed

lemma simulate_set_ok:
  assumes ok: "set_ok E h ls" and base: "length pre = unat st * E" and pos: "0 < E"
  shows "\<exists>ls'. fst (simulate (pre @ ls @ post) tg st E B stats op) = pre @ ls' @ post
            \<and> set_ok E (h @ [tg]) ls'"
proof (cases "tg \<in> set (lru_order E h)")
  case True
  from simulate_set_hit [OF ok base True, of post B stats op] show ?thesis by auto
next
  case False
  show ?thesis
  proof (cases "length (lru_order E h) < E")
    case True
    from simulate_set_cold [OF ok base False True, of post B stats op] show ?thesis by auto
  next
    case notless: False
    with length_lru_order [of E h] have "length (lru_order E h) = E" by simp
    from simulate_set_evict [OF ok base pos False this, of post B stats op]
    show ?thesis by auto
  qed
qed

lemma set_index_room: "i < S \<Longrightarrow> i * E + E \<le> S * (E::nat)"
  using mult_le_mono1 [of "Suc i" S E] by simp

lemma cache_split:
  assumes "length c = S * E" and "i < S"
  obtains pre post where "c = pre @ set_lines E c i @ post" and "length pre = i * E"
    and "length (set_lines E c i) = E"
proof (rule that [of "take (i * E) c" "drop E (drop (i * E) c)"])
  from set_index_room [OF assms(2), of E] assms(1) have room: "i * E + E \<le> length c" by simp
  have "drop (i * E) c = take E (drop (i * E) c) @ drop E (drop (i * E) c)"
    by (simp only: append_take_drop_id)
  then have "c = take (i * E) c @ take E (drop (i * E) c) @ drop E (drop (i * E) c)"
    by (metis append_take_drop_id)
  then show "c = take (i * E) c @ set_lines E c i @ drop E (drop (i * E) c)"
    by (simp only: set_lines_def)
  show "length (take (i * E) c) = i * E" using room by simp
  show "length (set_lines E c i) = E" using room by (simp add: set_lines_def)
qed

lemma set_lines_same:
  "length pre = i * E \<Longrightarrow> length ls = E \<Longrightarrow> set_lines E (pre @ ls @ post) i = ls"
  by (simp add: set_lines_def)

lemma set_lines_other:
  assumes "length pre = i * E" and "length ls = E" and "length ls' = E" and "j \<noteq> i"
  shows "set_lines E (pre @ ls' @ post) j = set_lines E (pre @ ls @ post) j"
proof (cases "j < i")
  case True
  then have "j * E + E \<le> i * E" by (rule set_index_room)
  with assms(1) show ?thesis by (simp add: set_lines_def)
next
  case False
  with assms(4) have "i < j" by simp
  then have "i * E + E \<le> j * E" by (rule set_index_room)
  with assms(1-3) show ?thesis by (simp add: set_lines_def)
qed

lemma set_history_snoc:
  "set_history (as @ [(op, tg, st)]) i =
     (if unat st = i then set_history as i @ [tg] else set_history as i)"
  by (simp add: set_history_def)

lemma simulate_cache_ok:
  assumes ok: "cache_ok S E as c" and pos: "0 < E" and st: "unat st < S"
  shows "cache_ok S E (as @ [(op, tg, st)]) (fst (simulate c tg st E B stats op))"
proof -
  let ?i = "unat st"
  let ?ls = "set_lines E c ?i"
  from ok have len: "length c = S * E"
    and sets: "\<And>i. i < S \<Longrightarrow> set_ok E (set_history as i) (set_lines E c i)"
    by (simp_all add: cache_ok_def)
  from len st obtain pre post where c: "c = pre @ ?ls @ post" and pre: "length pre = ?i * E"
    and ls: "length ?ls = E"
    by (rule cache_split)
  from simulate_set_ok [OF sets [OF st] pre pos, of post tg B stats op] c
  obtain ls' where c': "fst (simulate c tg st E B stats op) = pre @ ls' @ post"
    and ls': "set_ok E (set_history as ?i @ [tg]) ls'"
    by auto
  from ls' have lls': "length ls' = E" by (simp add: set_ok_def)
  have "length (pre @ ls' @ post) = length (pre @ ?ls @ post)"
    using lls' ls by simp
  with c len have len': "length (pre @ ls' @ post) = S * E" by simp
  have "set_ok E (set_history (as @ [(op, tg, st)]) i) (set_lines E (pre @ ls' @ post) i)"
    if "i < S" for i
  proof (cases "i = ?i")
    case True
    with ls' pre lls' show ?thesis
      by (simp add: set_history_snoc set_lines_same)
  next
    case False
    have "set_lines E (pre @ ls' @ post) i = set_lines E (pre @ ?ls @ post) i"
      using pre ls lls' False by (intro set_lines_other) auto
    with c have "set_lines E (pre @ ls' @ post) i = set_lines E c i" by simp
    with sets [OF that] False show ?thesis
      by (simp add: set_history_snoc)
  qed
  with len' c' show ?thesis by (simp add: cache_ok_def)
qed

lemma init_cache_ok: "cache_ok S E [] (init_cache S E)"
proof -
  have "set_lines E (init_cache S E) i = replicate E init_line" if "i < S" for i
    using set_index_room [OF that, of E]
    by (simp add: set_lines_def init_cache_def min_def)
  then show ?thesis
    by (simp add: cache_ok_def set_ok_def set_history_def lru_order_Nil init_cache_def
        init_line_def)
qed

lemma run_snoc:
  "run E B (as @ [(op, tg, st)]) cs =
     simulate (fst (run E B as cs)) tg st E B (snd (run E B as cs)) op"
proof (induction as arbitrary: cs)
  case Nil
  show ?case by (cases cs) simp
next
  case (Cons a as)
  obtain op' tg' st' where a: "a = (op', tg', st')" by (cases a)
  obtain c stats where cs: "cs = (c, stats)" by (cases cs)
  show ?case by (simp add: a cs Cons.IH)
qed

lemma run_cache_ok:
  assumes "0 < E" and "\<forall>a\<in>set as. unat (snd (snd a)) < S"
  shows "cache_ok S E as (fst (run E B as (init_cache S E, stats)))"
  using assms(2)
proof (induction as rule: rev_induct)
  case Nil
  show ?case by (simp add: init_cache_ok)
next
  case (snoc a as)
  obtain op tg st where a: "a = (op, tg, st)" by (cases a)
  from snoc.prems a have st: "unat st < S" by simp
  from snoc have "cache_ok S E as (fst (run E B as (init_cache S E, stats)))" by simp
  from simulate_cache_ok [OF this assms(1) st] show ?case
    by (simp add: a run_snoc)
qed

section \<open>The parser applies the parsed records in order\<close>

lemma process_trace_file_run:
  "snd (process_trace_file c s E b B trace stats) = run E B (applied_records s b trace) (c, stats)"
proof (induction c s E b B trace stats rule: process_trace_file.induct)
  case (1 c s E b B trace stats)
  show ?case
  proof (cases "fgets LINELEN trace")
    case None
    then show ?thesis
      by (subst process_trace_file.simps, subst applied_records.simps) simp
  next
    case (Some lr)
    obtain linebuf rest where lr: "lr = (linebuf, rest)" by (cases lr)
    show ?thesis
    proof (cases "trace_line s b linebuf")
      case None
      with Some lr show ?thesis
        by (subst process_trace_file.simps, subst applied_records.simps) simp
    next
      case (Some a)
      obtain op tg st where a: "a = (op, tg, st)" by (cases a)
      obtain c' stats' where sim: "simulate c tg st E B stats op = (c', stats')"
        by (cases "simulate c tg st E B stats op")
      have "snd (process_trace_file c' s E b B rest stats') =
              run E B (applied_records s b rest) (c', stats')"
        using \<open>fgets LINELEN trace = Some lr\<close> lr Some a sim
        by (intro "1.IH") auto
      with \<open>fgets LINELEN trace = Some lr\<close> lr Some a sim show ?thesis
        by (subst process_trace_file.simps, subst applied_records.simps) simp
    qed
  qed
qed

lemma simulate_counts:
  "(hits (snd (simulate c tg st E B stats op)) = hits stats + 1 \<and>
    misses (snd (simulate c tg st E B stats op)) = misses stats) \<or>
   (hits (snd (simulate c tg st E B stats op)) = hits stats \<and>
    misses (snd (simulate c tg st E B stats op)) = misses stats + 1)"
  unfolding simulate_def Let_def
  by (cases "scan_lines c (unat st * E) E tg 0") (auto split: prod.splits)

lemma run_counts:
  "hits (snd (run E B as (c, stats))) + misses (snd (run E B as (c, stats))) =
     hits stats + misses stats + length as"
proof (induction as arbitrary: c stats)
  case Nil
  show ?case by simp
next
  case (Cons a as)
  obtain op tg st where a: "a = (op, tg, st)" by (cases a)
  obtain c' stats' where sim: "simulate c tg st E B stats op = (c', stats')"
    by (cases "simulate c tg st E B stats op")
  from simulate_counts [of c tg st E B stats op] sim
  have "hits stats' + misses stats' = hits stats + misses stats + 1" by auto
  with Cons.IH [of c' stats'] a sim show ?case by simp
qed

section \<open>Address decomposition\<close>



lemma unat_drop_bit_less:
  fixes w :: "64 word"
  shows "unat (drop_bit (64 - s) w) < 2 ^ s"
proof -
  have d: "unat (drop_bit (64 - s) w) = unat w div 2 ^ (64 - s)"
    by (simp only: unat_drop_bit_eq) (simp add: drop_bit_eq_div)
  have lt: "unat w < 2 ^ 64"
    using unsigned_less [of w] by simp
  show ?thesis
  proof (cases "s \<le> 64")
    case True
    then have "(2::nat) ^ 64 = 2 ^ (64 - s) * 2 ^ s"
      by (simp add: power_add [symmetric])
    with lt have "unat w < 2 ^ (64 - s) * 2 ^ s" by simp
    then have "unat w div 2 ^ (64 - s) < 2 ^ s"
      by (simp add: less_mult_imp_div_less mult.commute)
    with d show ?thesis by simp
  next
    case False
    then have "(2::nat) ^ 64 \<le> 2 ^ s" by (intro power_increasing) simp_all
    with lt False d show ?thesis by simp
  qed
qed

lemma addr_set_bound: "unat (addr_set s b addr) < 2 ^ s"
  using unat_drop_bit_less [of s "push_bit (64 - s - b) addr"]
  by (simp add: addr_set_def MAXBITS_def)



section \<open>Counters\<close>

text \<open>
  Claim C7. Every call of \<open>simulate\<close> adds one to exactly one of the counters \<open>hits\<close> and
  \<open>misses\<close> and leaves the other as it is; hence, starting from the zeroed statistics,
  \<open>hits + misses\<close> is the number of access records applied, both for an arbitrary sequence
  of records and for the records \<open>process_trace_file\<close> applies from a trace.
\<close>

theorem hits_plus_misses_counts_accesses:
  "((hits (snd (simulate c tg st E B stats op)) = hits stats + 1 \<and>
     misses (snd (simulate c tg st E B stats op)) = misses stats) \<or>
    (hits (snd (simulate c tg st E B stats op)) = hits stats \<and>
     misses (snd (simulate c tg st E B stats op)) = misses stats + 1)) \<and>
   hits (snd (run E B as (c, init_stats))) + misses (snd (run E B as (c, init_stats))) = length as \<and>
   hits (snd (snd (process_trace_file c s E b B trace init_stats))) +
     misses (snd (snd (process_trace_file c s E b B trace init_stats))) =
     length (applied_records s b trace)"
  using simulate_counts [of c tg st E B stats op] run_counts [of E B as c init_stats]
    run_counts [of E B "applied_records s b trace" c init_stats]
  by (simp add: process_trace_file_run init_stats_def)

section \<open>Evaluation of concrete runs\<close>

lemmas parse_defs = trace_line_def c_str_def newline_def strtok_def strtoull_def strtoul_def
  isspace_def is_digit_def digit_val_def digits_val_def MAXADDR_def MAXSIZE_def MAXBITS_def
  addr_tag_def addr_set_def

lemmas engine_defs = simulate_def mark_store_def scan_lines.simps shift_hit.simps
  shift_evict.simps

lemmas run_defs = process_trace_file.simps fgets_def LINELEN_def parse_defs engine_defs
  init_line_def init_stats_def

lemma init_cache_1_4: "init_cache 1 4 = [init_line, init_line, init_line, init_line]"
  by (simp add: init_cache_def eval_nat_numeral)

lemma init_cache_1_2: "init_cache 1 2 = [init_line, init_line]"
  by (simp add: init_cache_def eval_nat_numeral)

lemma geometry_numerals:
  "nat 0 = 0" "nat 2 = 2" "nat 4 = 4" "(2::nat) ^ 0 = 1"
  by simp_all

lemma scenario5_first_five:
  "process_trace_file [init_line, init_line, init_line, init_line] 0 4 0 1
     ''S 1,1\<newline>S 2,1\<newline>L 1,1\<newline>S 3,1\<newline>S 4,1\<newline>'' init_stats =
   (0, [\<lparr>valid = 1, tag = 2, dirty = 1\<rparr>, \<lparr>valid = 1, tag = 1, dirty = 1\<rparr>,
        \<lparr>valid = 1, tag = 3, dirty = 1\<rparr>, \<lparr>valid = 1, tag = 4, dirty = 1\<rparr>],
    \<lparr>hits = 1, misses = 4, evictions = 0, dirty_bytes = 0, dirty_evictions = 0\<rparr>)"
  by (simp add: run_defs)

lemma scenario5_all_six:
  "process_trace_file [init_line, init_line, init_line, init_line] 0 4 0 1
     ''S 1,1\<newline>S 2,1\<newline>L 1,1\<newline>S 3,1\<newline>S 4,1\<newline>S 5,1\<newline>'' init_stats =
   (0, [\<lparr>valid = 1, tag = 1, dirty = 1\<rparr>, \<lparr>valid = 1, tag = 3, dirty = 1\<rparr>,
        \<lparr>valid = 1, tag = 4, dirty = 1\<rparr>, \<lparr>valid = 1, tag = 5, dirty = 1\<rparr>],
    \<lparr>hits = 1, misses = 5, evictions = 1, dirty_bytes = 0, dirty_evictions = 1\<rparr>)"
  by (simp add: run_defs)

text \<open>
  Claim C8. With \<open>s = 0\<close>, \<open>E = 4\<close>, \<open>b = 0\<close> the trace
  \<open>S 1,1; S 2,1; L 1,1; S 3,1; S 4,1; S 5,1\<close> ends with \<open>hits = 1\<close>, \<open>misses = 5\<close>,
  \<open>evictions = 1\<close>, \<open>dirty_bytes = 4\<close>, \<open>dirty_evictions = 1\<close>. Before the last store
  the line at position 0, the least recently used one, holds tag 2 and is dirty; the
  last store evicts it: afterwards the set holds the tags 1, 3, 4, 5 and the eviction
  counters have gone from 0 to 1.
\<close>

theorem scenario_fully_associative:
  "main 0 4 0 ''S 1,1\<newline>S 2,1\<newline>L 1,1\<newline>S 3,1\<newline>S 4,1\<newline>S 5,1\<newline>'' =
     Summary \<lparr>hits = 1, misses = 5, evictions = 1, dirty_bytes = 4, dirty_evictions = 1\<rparr> \<and>
   process_trace_file (init_cache 1 4) 0 4 0 1
     ''S 1,1\<newline>S 2,1\<newline>L 1,1\<newline>S 3,1\<newline>S 4,1\<newline>'' init_stats =
     (0, [\<lparr>valid = 1, tag = 2, dirty = 1\<rparr>, \<lparr>valid = 1, tag = 1, dirty = 1\<rparr>,
          \<lparr>valid = 1, tag = 3, dirty = 1\<rparr>, \<lparr>valid = 1, tag = 4, dirty = 1\<rparr>],
      \<lparr>hits = 1, misses = 4, evictions = 0, dirty_bytes = 0, dirty_evictions = 0\<rparr>) \<and>
   process_trace_file (init_cache 1 4) 0 4 0 1
     ''S 1,1\<newline>S 2,1\<newline>L 1,1\<newline>S 3,1\<newline>S 4,1\<newline>S 5,1\<newline>'' init_stats =
     (0, [\<lparr>valid = 1, tag = 1, dirty = 1\<rparr>, \<lparr>valid = 1, tag = 3, dirty = 1\<rparr>,
          \<lparr>valid = 1, tag = 4, dirty = 1\<rparr>, \<lparr>valid = 1, tag = 5, dirty = 1\<rparr>],
      \<lparr>hits = 1, misses = 5, evictions = 1, dirty_bytes = 0, dirty_evictions = 1\<rparr>)"
proof -
  have "main 0 4 0 ''S 1,1\<newline>S 2,1\<newline>L 1,1\<newline>S 3,1\<newline>S 4,1\<newline>S 5,1\<newline>'' =
     Summary \<lparr>hits = 1, misses = 5, evictions = 1, dirty_bytes = 4, dirty_evictions = 1\<rparr>"
    unfolding main_def Let_def geometry_numerals init_cache_1_4 scenario5_all_six
    by (simp add: count_dirty.simps INT_MAX_def)
  then show ?thesis
    unfolding init_cache_1_4 scenario5_first_five scenario5_all_six by simp
qed

section \<open>The layout of a set\<close>

lemma map_const_replicate: "\<forall>x\<in>set xs. f x = c \<Longrightarrow> map f xs = replicate (length xs) c"
  by (induction xs) auto

lemma set_ok_valid_map:
  assumes "set_ok E h ls"
  shows "map valid ls = replicate (length (lru_order E h)) 1 @ replicate (E - length (lru_order E h)) 0"
proof -
  from assms obtain vs "is" where ls: "ls = vs @ is" and len: "length vs = length (lru_order E h)"
    and vs: "\<forall>l\<in>set vs. valid l = 1 \<and> (dirty l = 0 \<or> dirty l = 1)"
    and "is": "\<forall>l\<in>set is. valid l = 0 \<and> dirty l = 0"
    and E: "E = length vs + length is"
    by (rule set_ok_parts)
  have "map valid vs = replicate (length vs) 1" using vs by (intro map_const_replicate) simp
  moreover have "map valid is = replicate (length is) 0" using "is" by (intro map_const_replicate) simp
  moreover have "length is = E - length vs" using E by linarith
  ultimately show ?thesis using ls len by simp
qed

text \<open>
  Claim C2, as the code has it. In every state reached from the initial cache by a
  sequence of accesses (each to a set below \<open>S\<close>), every set has \<open>E\<close> lines; its valid
  lines occupy the positions \<open>[0, n)\<close> and its invalid lines the positions \<open>[n, E)\<close>,
  where \<open>n\<close> is the number of valid lines; and the tags of the valid lines are in recency
  order, the least recently used at position 0 and the most recently used at position
  \<open>n - 1\<close>: they are the \<open>E\<close> most recently accessed distinct tags of the set, ordered by
  their last access. Every access preserves this, since the statement holds after any
  number of accesses.
\<close>

theorem lru_layout:
  assumes "0 < E" and "\<forall>a\<in>set as. unat (snd (snd a)) < S" and "i < S"
  shows "let ls = set_lines E (fst (run E B as (init_cache S E, init_stats))) i;
             w = lru_order E (set_history as i)
         in length ls = E \<and>
            map valid ls = replicate (length w) 1 @ replicate (E - length w) 0 \<and>
            map tag (take (length w) ls) = w"
proof -
  from run_cache_ok [OF assms(1,2)] assms(3)
  have ok: "set_ok E (set_history as i) (set_lines E (fst (run E B as (init_cache S E, init_stats))) i)"
    by (simp add: cache_ok_def)
  from set_ok_valid_map [OF ok] ok show ?thesis
    by (simp add: Let_def set_ok_def)
qed

theorem lru_layout_witness:
  "0 < (2::nat) \<and>
   unat (snd (snd (''L'', 1 :: 64 word, 0 :: 64 word))) < 1 \<and>
   unat (snd (snd (''S'', 2 :: 64 word, 0 :: 64 word))) < 1 \<and>
   unat (snd (snd (''L'', 3 :: 64 word, 0 :: 64 word))) < 1 \<and>
   (0::nat) < 1 \<and>
   length (set_lines 2 (fst (run 2 1 [(''L'', 1, 0), (''S'', 2, 0), (''L'', 3, 0)]
                                (init_cache 1 2, init_stats))) 0) = 2 \<and>
   map valid (set_lines 2 (fst (run 2 1 [(''L'', 1, 0), (''S'', 2, 0), (''L'', 3, 0)]
                                (init_cache 1 2, init_stats))) 0) = [1, 1] \<and>
   map tag (take 2 (set_lines 2 (fst (run 2 1 [(''L'', 1, 0), (''S'', 2, 0), (''L'', 3, 0)]
                                (init_cache 1 2, init_stats))) 0)) = [2, 3]"
proof -
  let ?as = "[(''L'', 1 :: 64 word, 0 :: 64 word), (''S'', 2, 0), (''L'', 3, 0)]"
  have h1: "0 < (2::nat)" by simp
  have h2: "\<forall>a\<in>set ?as. unat (snd (snd a)) < 1" by simp
  have h3: "(0::nat) < 1" by simp
  have w: "lru_order 2 (set_history ?as 0) = [2, 3]"
    by (simp add: lru_order_def set_history_def)
  have n: "length [2, 3 :: 64 word] = 2" "replicate 2 (1::int) @ replicate (2 - 2) 0 = [1, 1]"
    by (simp_all add: eval_nat_numeral)
  have u: "unat (snd (snd (''L'', 1 :: 64 word, 0 :: 64 word))) < 1"
    "unat (snd (snd (''S'', 2 :: 64 word, 0 :: 64 word))) < 1"
    "unat (snd (snd (''L'', 3 :: 64 word, 0 :: 64 word))) < 1"
    by simp_all
  from lru_layout [OF h1 h2 h3, of 1] h1 h3 u show ?thesis
    unfolding Let_def w n by blast
qed

text \<open>
  Claim C2 as stated puts the invalid lines first. After one load into an empty set of
  two lines the line at position 0 is valid and the line at position 1 is invalid: the
  one invalid line does not occupy the prefix \<open>[0, 1)\<close>.
\<close>

theorem invalid_lines_prefix_counterexample:
  "valid (set_lines 2 (fst (run 2 1 [(''L'', 1, 0)] (init_cache 1 2, init_stats))) 0 ! 0) = 1 \<and>
   valid (set_lines 2 (fst (run 2 1 [(''L'', 1, 0)] (init_cache 1 2, init_stats))) 0 ! 1) = 0"
  unfolding init_cache_1_2
  by (simp add: init_line_def init_stats_def engine_defs set_lines_def)

section \<open>Dirty lines\<close>














lemma store_then_load_run:
  "process_trace_file [init_line, init_line] 0 2 0 1 ''S 1,1\<newline>L 2,1\<newline>'' init_stats =
     (0, [\<lparr>valid = 1, tag = 1, dirty = 1\<rparr>, \<lparr>valid = 1, tag = 2, dirty = 0\<rparr>],
      \<lparr>hits = 0, misses = 2, evictions = 0, dirty_bytes = 0, dirty_evictions = 0\<rparr>)"
  by (simp add: run_defs)




section \<open>Repeated loads of one address\<close>

lemma lru_order_snoc_last:
  assumes "0 < E"
  shows "\<exists>w0. lru_order E (h @ [t]) = w0 @ [t]"
proof (cases "t \<in> set (lru_order E h)")
  case True
  then show ?thesis by (simp add: lru_order_hit)
next
  case False
  show ?thesis
  proof (cases "length (lru_order E h) < E")
    case True
    with False show ?thesis by (simp add: lru_order_cold)
  next
    case notless: False
    with length_lru_order [of E h] have "length (lru_order E h) = E" by simp
    with False assms show ?thesis by (simp add: lru_order_evict)
  qed
qed

lemma load_mru_noop:
  assumes ok: "set_ok E (h @ [tg]) ls" and base: "length pre = unat st * E" and pos: "0 < E"
    and op: "op \<noteq> ''S''"
  shows "simulate (pre @ ls @ post) tg st E B stats op =
           (pre @ ls @ post, stats\<lparr>hits := hits stats + 1\<rparr>)"
proof -
  let ?w = "lru_order E (h @ [tg])"
  from ok obtain vs "is" where ls: "ls = vs @ is" and len: "length vs = length ?w"
    and tags: "map tag vs = ?w"
    and vs: "\<forall>l\<in>set vs. valid l = 1 \<and> (dirty l = 0 \<or> dirty l = 1)"
    and "is": "\<forall>l\<in>set is. valid l = 0 \<and> dirty l = 0"
    and E: "E = length vs + length is"
    by (rule set_ok_parts)
  from lru_order_snoc_last [OF pos] obtain w0 where w: "?w = w0 @ [tg]" by blast
  let ?k = "length w0"
  have lv: "length vs = Suc ?k" using len w by simp
  then have ne: "vs \<noteq> []" by auto
  have kv: "?k < length vs" using lv by simp
  have "tag (vs ! ?k) = ?w ! ?k" using tags kv by (metis nth_map)
  then have tagk: "tag (vs ! ?k) = tg" by (simp add: w)
  have "distinct (w0 @ [tg])" using distinct_lru_order [of E "h @ [tg]"] w by simp
  then have notin: "tg \<notin> set w0" by simp
  have first: "\<forall>m<?k. tag (vs ! m) \<noteq> tg"
  proof (intro allI impI)
    fix m assume m: "m < ?k"
    then have "tag (vs ! m) = ?w ! m" using tags kv by (metis nth_map order.strict_trans)
    also have "\<dots> = w0 ! m" using m by (simp add: w nth_append)
    finally show "tag (vs ! m) \<noteq> tg" using notin m by (metis nth_mem)
  qed
  have sim: "simulate (pre @ vs @ is @ post) tg st E B stats op =
      (pre @ take ?k vs @ drop (Suc ?k) vs @ mark_store op ((last vs)\<lparr>tag := tg\<rparr>) # is @ post,
       stats\<lparr>hits := hits stats + 1\<rparr>)"
  proof (rule simulate_hit [OF base _ _ E kv tagk first])
    show "\<forall>l\<in>set vs. valid l = 1" using vs by simp
    show "\<forall>l\<in>set is. valid l = 0" using "is" by simp
  qed
  have "last vs = vs ! ?k" using lv ne by (simp add: last_conv_nth)
  with tagk have "(last vs)\<lparr>tag := tg\<rparr> = last vs" by simp
  with op have x: "mark_store op ((last vs)\<lparr>tag := tg\<rparr>) = last vs"
    by (simp add: mark_store_def)
  have "take ?k vs = butlast vs" using lv by (simp add: butlast_conv_take)
  moreover have "drop (Suc ?k) vs = []" using lv by simp
  ultimately have "take ?k vs @ drop (Suc ?k) vs @ [last vs] = vs"
    using ne by simp
  then have "take ?k vs @ drop (Suc ?k) vs @ last vs # is @ post = vs @ is @ post"
    by (metis append.assoc append_Cons append_Nil)
  with sim x ls show ?thesis by simp
qed

lemma resident_iff:
  assumes "set_ok E h ls"
  shows "(\<exists>l\<in>set ls. valid l = 1 \<and> tag l = tg) \<longleftrightarrow> tg \<in> set (lru_order E h)"
proof -
  from assms obtain vs "is" where ls: "ls = vs @ is"
    and tags: "map tag vs = lru_order E h"
    and vs: "\<forall>l\<in>set vs. valid l = 1 \<and> (dirty l = 0 \<or> dirty l = 1)"
    and "is": "\<forall>l\<in>set is. valid l = 0 \<and> dirty l = 0"
    by (rule set_ok_parts)
  have "(\<exists>l\<in>set ls. valid l = 1 \<and> tag l = tg) \<longleftrightarrow> (\<exists>l\<in>set vs. tag l = tg)"
    using ls vs "is" by auto
  also have "\<dots> \<longleftrightarrow> tg \<in> set (map tag vs)" by auto
  finally show ?thesis by (simp only: tags)
qed

lemma run_replicate_noop:
  assumes "\<And>stats. simulate c tg st E B stats op = (c, stats\<lparr>hits := hits stats + 1\<rparr>)"
  shows "run E B (replicate n (op, tg, st)) (c, stats) = (c, stats\<lparr>hits := hits stats + n\<rparr>)"
proof (induction n arbitrary: stats)
  case 0
  show ?case by simp
next
  case (Suc n)
  show ?case by (simp add: assms Suc.IH)
qed

lemma repeated_loads_core:
  assumes ok: "cache_ok S E as c" and pos: "0 < E" and st: "unat st < S"
    and sim: "simulate c tg st E B stats ''L'' = (c1, stats1)"
  shows "(if \<exists>l\<in>set (set_lines E c (unat st)). valid l = 1 \<and> tag l = tg
          then hits stats1 = hits stats + 1 \<and> misses stats1 = misses stats
          else hits stats1 = hits stats \<and> misses stats1 = misses stats + 1) \<and>
         (\<forall>n. run E B (replicate n (''L'', tg, st)) (c1, stats1) =
                 (c1, stats1\<lparr>hits := hits stats1 + n\<rparr>))"
proof -
  let ?i = "unat st"
  let ?ls = "set_lines E c ?i"
  let ?h = "set_history as ?i"
  from ok have len: "length c = S * E" and sok: "set_ok E ?h ?ls"
    using st by (simp_all add: cache_ok_def)
  from len st obtain pre post where c: "c = pre @ ?ls @ post" and pre: "length pre = ?i * E"
    by (rule cache_split)
  have res: "(\<exists>l\<in>set ?ls. valid l = 1 \<and> tag l = tg) \<longleftrightarrow> tg \<in> set (lru_order E ?h)"
    by (rule resident_iff [OF sok])
  have "\<exists>ls'. c1 = pre @ ls' @ post \<and> set_ok E (?h @ [tg]) ls' \<and>
      (if tg \<in> set (lru_order E ?h)
       then hits stats1 = hits stats + 1 \<and> misses stats1 = misses stats
       else hits stats1 = hits stats \<and> misses stats1 = misses stats + 1)"
  proof (cases "tg \<in> set (lru_order E ?h)")
    case True
    from simulate_set_hit [OF sok pre True, of post B stats "''L''"] sim c True
    show ?thesis by auto
  next
    case False
    show ?thesis
    proof (cases "length (lru_order E ?h) < E")
      case True
      from simulate_set_cold [OF sok pre False True, of post B stats "''L''"] sim c False
      show ?thesis by auto
    next
      case notless: False
      with length_lru_order [of E ?h] have "length (lru_order E ?h) = E" by simp
      from simulate_set_evict [OF sok pre pos False this, of post B stats "''L''"] sim c False
      show ?thesis by auto
    qed
  qed
  then obtain ls' where c1: "c1 = pre @ ls' @ post" and ok': "set_ok E (?h @ [tg]) ls'"
    and counts: "if tg \<in> set (lru_order E ?h)
       then hits stats1 = hits stats + 1 \<and> misses stats1 = misses stats
       else hits stats1 = hits stats \<and> misses stats1 = misses stats + 1"
    by blast
  have noop: "simulate c1 tg st E B stats' ''L'' = (c1, stats'\<lparr>hits := hits stats' + 1\<rparr>)"
    for stats'
    unfolding c1 by (rule load_mru_noop [OF ok' pre pos]) simp
  from run_replicate_noop [of c1 tg st E B "''L''", OF noop] counts res
  show ?thesis by simp
qed

text \<open>
  Claim C9, as the code has it. Take any state reached from the initial cache by a
  sequence of accesses, and any address. The first load of the address is a miss when
  its block is not resident in the addressed set (no valid line of the set holds its
  tag) and a hit when it is resident. Every further load of the same address is a hit
  that leaves the whole cache, and so the addressed set, as it was: after the first
  load, \<open>n\<close> more loads add \<open>n\<close> to \<open>hits\<close> and change nothing else. So \<open>N\<close> consecutive
  loads give one miss and \<open>N - 1\<close> hits from a state without the block, and \<open>N\<close> hits from
  a state that holds it.
\<close>

theorem repeated_loads:
  assumes "0 < E" and "\<forall>a\<in>set as. unat (snd (snd a)) < 2 ^ s"
  shows "let tg = addr_tag s b addr; st = addr_set s b addr;
             (c, stats) = run E B as (init_cache (2 ^ s) E, init_stats);
             (c1, stats1) = simulate c tg st E B stats ''L''
         in (if \<exists>l\<in>set (set_lines E c (unat st)). valid l = 1 \<and> tag l = tg
             then hits stats1 = hits stats + 1 \<and> misses stats1 = misses stats
             else hits stats1 = hits stats \<and> misses stats1 = misses stats + 1) \<and>
            (\<forall>n. run E B (replicate n (''L'', tg, st)) (c1, stats1) =
                    (c1, stats1\<lparr>hits := hits stats1 + n\<rparr>))"
proof -
  obtain c stats where r: "run E B as (init_cache (2 ^ s) E, init_stats) = (c, stats)"
    by (cases "run E B as (init_cache (2 ^ s) E, init_stats)")
  obtain c1 stats1 where sim:
    "simulate c (addr_tag s b addr) (addr_set s b addr) E B stats ''L'' = (c1, stats1)"
    by (cases "simulate c (addr_tag s b addr) (addr_set s b addr) E B stats ''L''")
  have "cache_ok (2 ^ s) E as c"
    using run_cache_ok [OF assms, of B init_stats] r by simp
  from repeated_loads_core [OF this assms(1) addr_set_bound sim]
  show ?thesis
    unfolding Let_def r sim prod.case .
qed


lemma one_load_run:
  "run 2 1 [(''L'', 1, 0)] ([init_line, init_line], init_stats) =
     ([\<lparr>valid = 1, tag = 1, dirty = 0\<rparr>, init_line],
      \<lparr>hits = 0, misses = 1, evictions = 0, dirty_bytes = 0, dirty_evictions = 0\<rparr>)"
  by (simp add: init_line_def init_stats_def engine_defs)

lemma second_load_step:
  "simulate [\<lparr>valid = 1, tag = 1, dirty = 0\<rparr>, init_line] (addr_tag 0 0 2) (addr_set 0 0 2) 2 1
      \<lparr>hits = 0, misses = 1, evictions = 0, dirty_bytes = 0, dirty_evictions = 0\<rparr> ''L'' =
     ([\<lparr>valid = 1, tag = 1, dirty = 0\<rparr>, \<lparr>valid = 1, tag = 2, dirty = 0\<rparr>],
      \<lparr>hits = 0, misses = 2, evictions = 0, dirty_bytes = 0, dirty_evictions = 0\<rparr>)"
  by (simp add: init_line_def engine_defs addr_tag_def addr_set_def)

theorem repeated_loads_witness:
  "0 < (2::nat) \<and> unat (snd (snd (''L'', 1 :: 64 word, 0 :: 64 word))) < 2 ^ 0 \<and>
   run 2 1 (replicate 3 (''L'', addr_tag 0 0 2, addr_set 0 0 2))
     ([\<lparr>valid = 1, tag = 1, dirty = 0\<rparr>, \<lparr>valid = 1, tag = 2, dirty = 0\<rparr>],
      \<lparr>hits = 0, misses = 2, evictions = 0, dirty_bytes = 0, dirty_evictions = 0\<rparr>) =
     ([\<lparr>valid = 1, tag = 1, dirty = 0\<rparr>, \<lparr>valid = 1, tag = 2, dirty = 0\<rparr>],
      \<lparr>hits = 3, misses = 2, evictions = 0, dirty_bytes = 0, dirty_evictions = 0\<rparr>)"
proof -
  have h1: "0 < (2::nat)" by simp
  have h2: "\<forall>a\<in>set [(''L'', 1 :: 64 word, 0 :: 64 word)]. unat (snd (snd a)) < 2 ^ 0" by simp
  have ic: "init_cache (2 ^ 0) 2 = [init_line, init_line]"
    by (simp add: init_cache_def eval_nat_numeral)
  from repeated_loads [OF h1 h2, of 0 2 1]
  have "\<forall>n. run 2 1 (replicate n (''L'', addr_tag 0 0 2, addr_set 0 0 2))
     ([\<lparr>valid = 1, tag = 1, dirty = 0\<rparr>, \<lparr>valid = 1, tag = 2, dirty = 0\<rparr>],
      \<lparr>hits = 0, misses = 2, evictions = 0, dirty_bytes = 0, dirty_evictions = 0\<rparr>) =
     ([\<lparr>valid = 1, tag = 1, dirty = 0\<rparr>, \<lparr>valid = 1, tag = 2, dirty = 0\<rparr>],
      \<lparr>hits = 0, misses = 2, evictions = 0, dirty_bytes = 0, dirty_evictions = 0\<rparr>
      \<lparr>hits := hits \<lparr>hits = 0, misses = 2, evictions = 0, dirty_bytes = 0,
                         dirty_evictions = 0\<rparr> + n\<rparr>)"
    unfolding Let_def ic one_load_run prod.case second_load_step by blast
  then have "run 2 1 (replicate 3 (''L'', addr_tag 0 0 2, addr_set 0 0 2))
     ([\<lparr>valid = 1, tag = 1, dirty = 0\<rparr>, \<lparr>valid = 1, tag = 2, dirty = 0\<rparr>],
      \<lparr>hits = 0, misses = 2, evictions = 0, dirty_bytes = 0, dirty_evictions = 0\<rparr>) =
     ([\<lparr>valid = 1, tag = 1, dirty = 0\<rparr>, \<lparr>valid = 1, tag = 2, dirty = 0\<rparr>],
      \<lparr>hits = 0, misses = 2, evictions = 0, dirty_bytes = 0, dirty_evictions = 0\<rparr>
      \<lparr>hits := hits \<lparr>hits = 0, misses = 2, evictions = 0, dirty_bytes = 0,
                         dirty_evictions = 0\<rparr> + 3\<rparr>)"
    by (rule spec)
  with h1 show ?thesis by simp
qed

text \<open>
  Claim C9 as stated speaks of every cache state. In the state reached by one load of
  address 1 (geometry \<open>s = 0\<close>, \<open>E = 2\<close>, \<open>b = 0\<close>) one more load of address 1, that is
  \<open>N = 1\<close>, is a hit: \<open>misses\<close> stays 1 and \<open>hits\<close> goes from 0 to 1.
\<close>

theorem repeated_loads_counterexample:
  "run 2 1 [(''L'', addr_tag 0 0 1, addr_set 0 0 1)] (init_cache 1 2, init_stats) =
     ([\<lparr>valid = 1, tag = 1, dirty = 0\<rparr>, init_line],
      \<lparr>hits = 0, misses = 1, evictions = 0, dirty_bytes = 0, dirty_evictions = 0\<rparr>) \<and>
   run 2 1 (replicate 1 (''L'', addr_tag 0 0 1, addr_set 0 0 1))
     ([\<lparr>valid = 1, tag = 1, dirty = 0\<rparr>, init_line],
      \<lparr>hits = 0, misses = 1, evictions = 0, dirty_bytes = 0, dirty_evictions = 0\<rparr>) =
     ([\<lparr>valid = 1, tag = 1, dirty = 0\<rparr>, init_line],
      \<lparr>hits = 1, misses = 1, evictions = 0, dirty_bytes = 0, dirty_evictions = 0\<rparr>)"
  unfolding init_cache_1_2
  by (simp add: init_line_def init_stats_def engine_defs addr_tag_def addr_set_def)

section \<open>Load hits and the dirty flag\<close>

text \<open>
  What a hit does, in any reachable state: after the access the last valid position of
  the addressed set holds a valid line with the accessed tag. Its dirty flag is 1 after
  a store; after a load it is the dirty flag that the line at this position, the most
  recently used line so far, had before the access, whichever line was hit.
\<close>

lemma hit_line_after_access:
  assumes ok: "cache_ok S E as c" and st: "unat st < S"
    and hit: "tg \<in> set (lru_order E (set_history as (unat st)))"
  shows "let n = length (lru_order E (set_history as (unat st)));
             old = set_lines E c (unat st);
             new = set_lines E (fst (simulate c tg st E B stats op)) (unat st)
         in tag (new ! (n - 1)) = tg \<and> valid (new ! (n - 1)) = 1 \<and>
            dirty (new ! (n - 1)) = (if op = ''S'' then 1 else dirty (old ! (n - 1)))"
proof -
  let ?i = "unat st"
  let ?w = "lru_order E (set_history as ?i)"
  let ?ls = "set_lines E c ?i"
  from ok st have len: "length c = S * E" and sok: "set_ok E (set_history as ?i) ?ls"
    by (simp_all add: cache_ok_def)
  from len st obtain pre post where c: "c = pre @ ?ls @ post" and pre: "length pre = ?i * E"
    by (rule cache_split)
  from sok obtain vs "is" where ls: "?ls = vs @ is" and lv: "length vs = length ?w"
    and tags: "map tag vs = ?w"
    and vs: "\<forall>l\<in>set vs. valid l = 1 \<and> (dirty l = 0 \<or> dirty l = 1)"
    and "is": "\<forall>l\<in>set is. valid l = 0 \<and> dirty l = 0"
    and E: "E = length vs + length is"
    by (rule set_ok_parts)
  from hit obtain k where k: "k < length ?w" "?w ! k = tg"
    by (auto simp: in_set_conv_nth)
  have kv: "k < length vs" using k(1) lv by simp
  then have ne: "vs \<noteq> []" by auto
  have tagk: "tag (vs ! k) = tg" using k kv tags by (metis nth_map)
  have first: "\<forall>m<k. tag (vs ! m) \<noteq> tg"
  proof (intro allI impI)
    fix m assume "m < k"
    with kv have "tag (vs ! m) = ?w ! m" using tags by (metis nth_map order.strict_trans)
    moreover have "?w ! m \<noteq> ?w ! k"
      using \<open>m < k\<close> k(1) distinct_lru_order [of E "set_history as ?i"]
      by (simp add: nth_eq_iff_index_eq)
    ultimately show "tag (vs ! m) \<noteq> tg" using k(2) by simp
  qed
  let ?x = "mark_store op ((last vs)\<lparr>tag := tg\<rparr>)"
  let ?m = "take k vs @ drop (Suc k) vs"
  have "simulate (pre @ vs @ is @ post) tg st E B stats op =
      (pre @ take k vs @ drop (Suc k) vs @ ?x # is @ post, stats\<lparr>hits := hits stats + 1\<rparr>)"
  proof (rule simulate_hit [OF pre _ _ E kv tagk first])
    show "\<forall>l\<in>set vs. valid l = 1" using vs by simp
    show "\<forall>l\<in>set is. valid l = 0" using "is" by simp
  qed
  with c ls have c': "fst (simulate c tg st E B stats op) = pre @ (?m @ ?x # is) @ post"
    by simp
  have lm: "length ?m = length vs - 1" using kv by simp
  have "length (?m @ ?x # is) = E" using E kv by simp
  with pre have new: "set_lines E (fst (simulate c tg st E B stats op)) ?i = ?m @ ?x # is"
    unfolding c' by (rule set_lines_same)
  have "length ?w - 1 = length ?m" using lm lv by simp
  then have newx: "(?m @ ?x # is) ! (length ?w - 1) = ?x"
    by (simp only: nth_append_length)
  have "length ?w - 1 < length vs" using lv ne by (cases vs) auto
  then have "(vs @ is) ! (length ?w - 1) = vs ! (length vs - 1)"
    using lv by (simp add: nth_append)
  then have oldx: "?ls ! (length ?w - 1) = last vs"
    using ne by (simp add: ls last_conv_nth)
  have "valid (last vs) = 1" using vs ne by simp
  then show ?thesis
    unfolding Let_def new newx oldx by simp
qed

lemma load_hit_run:
  "process_trace_file [init_line, init_line] 0 2 0 1
      ''S 1,1\<newline>L 2,1\<newline>L 1,1\<newline>'' init_stats =
     (0, [\<lparr>valid = 1, tag = 2, dirty = 0\<rparr>, \<lparr>valid = 1, tag = 1, dirty = 0\<rparr>],
      \<lparr>hits = 1, misses = 2, evictions = 0, dirty_bytes = 0, dirty_evictions = 0\<rparr>)"
  by (simp add: run_defs)

lemma load_hit_run2:
  "process_trace_file [init_line, init_line] 0 2 0 1
      ''L 1,1\<newline>S 2,1\<newline>L 1,1\<newline>'' init_stats =
     (0, [\<lparr>valid = 1, tag = 2, dirty = 1\<rparr>, \<lparr>valid = 1, tag = 1, dirty = 1\<rparr>],
      \<lparr>hits = 1, misses = 2, evictions = 0, dirty_bytes = 0, dirty_evictions = 0\<rparr>)"
  by (simp add: run_defs)

text \<open>
  Claim C1 says that a load hit keeps the dirty flag of the line it hits. The hit branch
  of \<open>simulate\<close> copies tag and dirty flag of each later valid line one position down and
  then writes only the tag into the last valid line, so after a load hit the line of the
  accessed tag carries the dirty flag of the line that was most recently used before.
  With \<open>s = 0\<close>, \<open>E = 2\<close>, \<open>b = 0\<close>: after \<open>S 1,1; L 2,1\<close> the line of tag 1 is dirty and
  the line of tag 2 is clean; the load \<open>L 1,1\<close> hits tag 1 and leaves its line clean, and
  the run reports \<open>dirty_bytes = 0\<close>. In the other direction, after \<open>L 1,1; S 2,1\<close> the
  load \<open>L 1,1\<close> makes the clean line of tag 1 dirty, and the run reports
  \<open>dirty_bytes = 2\<close>.
\<close>

theorem load_hit_dirty_bit_not_preserved:
  "process_trace_file (init_cache 1 2) 0 2 0 1 ''S 1,1\<newline>L 2,1\<newline>'' init_stats =
     (0, [\<lparr>valid = 1, tag = 1, dirty = 1\<rparr>, \<lparr>valid = 1, tag = 2, dirty = 0\<rparr>],
      \<lparr>hits = 0, misses = 2, evictions = 0, dirty_bytes = 0, dirty_evictions = 0\<rparr>) \<and>
   process_trace_file (init_cache 1 2) 0 2 0 1
      ''S 1,1\<newline>L 2,1\<newline>L 1,1\<newline>'' init_stats =
     (0, [\<lparr>valid = 1, tag = 2, dirty = 0\<rparr>, \<lparr>valid = 1, tag = 1, dirty = 0\<rparr>],
      \<lparr>hits = 1, misses = 2, evictions = 0, dirty_bytes = 0, dirty_evictions = 0\<rparr>) \<and>
   main 0 2 0 ''S 1,1\<newline>L 2,1\<newline>L 1,1\<newline>'' =
     Summary \<lparr>hits = 1, misses = 2, evictions = 0, dirty_bytes = 0, dirty_evictions = 0\<rparr> \<and>
   main 0 2 0 ''L 1,1\<newline>S 2,1\<newline>L 1,1\<newline>'' =
     Summary \<lparr>hits = 1, misses = 2, evictions = 0, dirty_bytes = 2, dirty_evictions = 0\<rparr>"
proof -
  have "main 0 2 0 ''S 1,1\<newline>L 2,1\<newline>L 1,1\<newline>'' =
     Summary \<lparr>hits = 1, misses = 2, evictions = 0, dirty_bytes = 0, dirty_evictions = 0\<rparr>"
    unfolding main_def Let_def geometry_numerals init_cache_1_2 load_hit_run
    by (simp add: count_dirty.simps INT_MAX_def)
  moreover have "main 0 2 0 ''L 1,1\<newline>S 2,1\<newline>L 1,1\<newline>'' =
     Summary \<lparr>hits = 1, misses = 2, evictions = 0, dirty_bytes = 2, dirty_evictions = 0\<rparr>"
    unfolding main_def Let_def geometry_numerals init_cache_1_2 load_hit_run2
    by (simp add: count_dirty.simps INT_MAX_def)
  ultimately show ?thesis
    unfolding init_cache_1_2 store_then_load_run load_hit_run by simp
qed

section \<open>Validation of trace lines\<close>

lemma digit_not_separator:
  assumes "is_digit 16 c"
  shows "c \<noteq> CHR 0x20" "c \<noteq> CHR '',''" "c \<noteq> newline" "c \<noteq> CHR 0x00" "c \<noteq> CHR ''-''"
    "c \<noteq> CHR ''+''" "c \<noteq> CHR ''x''" "c \<noteq> CHR ''X''" "\<not> isspace c"
  using assms by (auto simp: is_digit_def digit_val_def isspace_def newline_def)

lemma is_digit_10_16: "is_digit 10 c \<Longrightarrow> is_digit 16 c"
  by (simp add: is_digit_def)

lemma strtoull_digits:
  assumes ne: "ds \<noteq> []" and digits: "\<forall>c\<in>set ds. is_digit base c" and base: "base = 10 \<or> base = 16"
  shows "strtoull ds base =
     (if 18446744073709551615 < digits_val base ds then - 1 else of_nat (digits_val base ds), [])"
proof -
  from base digits have d16: "\<forall>c\<in>set ds. is_digit 16 c"
    by (auto intro: is_digit_10_16)
  from ne obtain x xs where ds: "ds = x # xs" by (cases ds) auto
  with d16 have x: "is_digit 16 x" by simp
  have sp: "dropWhile isspace ds = ds"
    using digit_not_separator(9) [OF x] by (simp add: ds)
  have sign: "hd ds \<noteq> CHR ''-''" "hd ds \<noteq> CHR ''+''"
    using digit_not_separator(5,6) [OF x] by (simp_all add: ds)
  have pre: "\<not> (3 \<le> length ds \<and> ds ! 0 = CHR ''0'' \<and> (ds ! 1 = CHR ''x'' \<or> ds ! 1 = CHR ''X'')
      \<and> is_digit 16 (ds ! 2))"
  proof
    assume a: "3 \<le> length ds \<and> ds ! 0 = CHR ''0'' \<and> (ds ! 1 = CHR ''x'' \<or> ds ! 1 = CHR ''X'')
      \<and> is_digit 16 (ds ! 2)"
    then have "ds ! 1 \<in> set ds" by (intro nth_mem) simp
    with d16 have "is_digit 16 (ds ! 1)" by simp
    from digit_not_separator(7,8) [OF this] a show False by simp
  qed
  have tw: "takeWhile (is_digit base) ds = ds" "dropWhile (is_digit base) ds = []"
    using digits by simp_all
  have s2: "(if ds \<noteq> [] \<and> (hd ds = CHR ''-'' \<or> hd ds = CHR ''+'') then tl ds else ds) = ds"
    using sign by simp
  have neg: "(ds \<noteq> [] \<and> hd ds = CHR ''-'') = False"
    using sign by simp
  have prefixed: "(base = 16 \<and> 3 \<le> length ds \<and> ds ! 0 = CHR ''0''
      \<and> (ds ! 1 = CHR ''x'' \<or> ds ! 1 = CHR ''X'') \<and> is_digit 16 (ds ! 2)) = False"
    using pre by blast
  have nonempty: "(ds = []) = False" using ne by simp
  show ?thesis
    apply (simp only: strtoull_def Let_def sp)
    apply (simp only: s2)
    apply (simp only: neg prefixed if_False)
    apply (simp only: tw nonempty if_False)
    apply simp
    done
qed

lemma maxaddr_never_exceeded: "\<not> MAXADDR < (x :: 64 word)"
proof -
  have "MAXADDR = (- 1 :: 64 word)" by (simp add: MAXADDR_def)
  moreover have "x \<le> - 1" by (rule word_n1_ge)
  ultimately show ?thesis by (simp only: not_less)
qed

lemma size_check:
  "MAXSIZE < (if 18446744073709551615 < v then - 1 else of_nat v) \<longleftrightarrow> 1024 < v"
proof (cases "18446744073709551615 < v")
  case True
  then show ?thesis by (simp add: MAXSIZE_def)
next
  case False
  then have "v < 2 ^ 64" by simp
  then have "unat (of_nat v :: 64 word) = v"
    by (simp add: unat_of_nat)
  moreover have "unat MAXSIZE = 1024" by (simp add: MAXSIZE_def)
  ultimately show ?thesis using False by (simp add: word_less_nat_alt)
qed

lemma strtok_token:
  assumes "tok \<noteq> []" and "\<forall>c\<in>set tok. c \<noteq> sep"
  shows "strtok (tok @ sep # rest) [sep] = (Some tok, rest)"
proof -
  from assms obtain x xs where tok: "tok = x # xs" by (cases tok) auto
  with assms(2) have "x \<noteq> sep" by simp
  then have skip: "dropWhile (\<lambda>c. c \<in> set [sep]) (tok @ sep # rest) = tok @ sep # rest"
    by (simp add: tok)
  have tw: "takeWhile (\<lambda>c. c \<notin> set [sep]) (tok @ sep # rest) = tok"
    using assms(2) by (simp add: takeWhile_append2)
  have dw: "dropWhile (\<lambda>c. c \<notin> set [sep]) (tok @ sep # rest) = sep # rest"
    using assms(2) by (simp add: dropWhile_append2)
  show ?thesis
    unfolding strtok_def Let_def skip tw dw by (simp add: tok)
qed

lemma trace_line_well_formed:
  assumes "op = ''L'' \<or> op = ''S''"
    and "a \<noteq> []" and "\<forall>c\<in>set a. is_digit 16 c"
    and "d \<noteq> []" and "\<forall>c\<in>set d. is_digit 10 c"
  shows "trace_line s b (op @ [CHR 0x20] @ a @ '','' @ d @ [newline]) =
     (let addr = (if 18446744073709551615 < digits_val 16 a then - 1
                  else of_nat (digits_val 16 a))
      in if 1024 < digits_val 10 d then None
         else Some (op, addr_tag s b addr, addr_set s b addr))"
proof -
  let ?line = "op @ [CHR 0x20] @ a @ '','' @ d @ [newline]"
  let ?addr = "if 18446744073709551615 < digits_val 16 a then - 1
               else of_nat (digits_val 16 a) :: 64 word"
  have d16: "\<forall>c\<in>set d. is_digit 16 c" using assms(5) by (auto intro: is_digit_10_16)
  have opc: "\<forall>c\<in>set op. c \<noteq> CHR 0x00 \<and> c \<noteq> CHR 0x20" and opne: "op \<noteq> []"
    using assms(1) by auto
  have nonul: "\<forall>c\<in>set ?line. c \<noteq> CHR 0x00"
    using opc assms(3) d16 by (auto simp: newline_def dest: digit_not_separator(4))
  then have cstr: "c_str ?line = ?line"
    unfolding c_str_def by (simp only: takeWhile_eq_all_conv)
  have nl: "newline \<in> set ?line" by simp
  have t1: "strtok ?line [CHR 0x20] = (Some op, a @ '','' @ d @ [newline])"
    using strtok_token [of op "CHR 0x20" "a @ '','' @ d @ [newline]"] opc opne by simp
  have t2: "strtok (a @ '','' @ d @ [newline]) '','' = (Some a, d @ [newline])"
    using strtok_token [of a "CHR '',''" "d @ [newline]"] assms(2,3)
    by (auto dest: digit_not_separator(2))
  have t3: "strtok (d @ [newline]) [newline] = (Some d, [])"
    using strtok_token [of d newline "[]"] assms(4) d16
    by (auto dest: digit_not_separator(3))
  have va: "strtoull a 16 = (?addr, [])"
    using strtoull_digits [OF assms(2,3)] by simp
  have vd: "strtoul d 10 =
      (if 18446744073709551615 < digits_val 10 d then - 1 else of_nat (digits_val 10 d), [])"
    unfolding strtoul_def using strtoull_digits [OF assms(4,5)] by simp
  have "trace_line s b ?line =
      (if MAXSIZE < (if 18446744073709551615 < digits_val 10 d then - 1
                       else of_nat (digits_val 10 d))
       then None
       else Some (op, addr_tag s b ?addr, addr_set s b ?addr))"
    unfolding trace_line_def Let_def cstr t1 prod.case option.case t2 t3 va vd
    using nl assms(1) maxaddr_never_exceeded
    by auto
  then show ?thesis by (simp only: size_check Let_def)
qed

lemma fgets_chars_line:
  "newline \<notin> set l \<Longrightarrow> length l < k \<Longrightarrow>
     fgets_chars k (l @ newline # rest) = (l @ [newline], rest)"
proof (induction l arbitrary: k)
  case Nil
  then show ?case by simp
next
  case (Cons x l)
  then have "fgets_chars (k - 1) (l @ newline # rest) = (l @ [newline], rest)"
    by (intro Cons.IH) auto
  with Cons.prems show ?case by auto
qed

lemma fgets_line:
  assumes "newline \<notin> set l" and "length (l @ [newline]) < LINELEN"
  shows "fgets LINELEN ((l @ [newline]) @ rest) = Some (l @ [newline], rest)"
  using fgets_chars_line [OF assms(1), of "LINELEN - 1" rest] assms(2)
  by (simp add: fgets_def)

text \<open>
  Claim C4, as the code has it. Take a trace line \<open>op address,size\<close> with \<open>op\<close> one of
  \<open>L\<close> and \<open>S\<close>, a nonempty hexadecimal numeral of value at most \<open>2^64 - 1\<close> as address
  and a nonempty decimal numeral as size, short enough for the line buffer. When
  \<open>process_trace_file\<close> reaches the line, it returns 1 (the trace error) exactly when the
  size exceeds 1024. A size of zero is accepted: the access is passed to \<open>simulate\<close> like
  any other and parsing goes on with the rest of the trace.
\<close>

theorem size_validation:
  assumes "op = ''L'' \<or> op = ''S''"
    and "a \<noteq> []" and "\<forall>c\<in>set a. is_digit 16 c"
    and "digits_val 16 a \<le> 18446744073709551615"
    and "d \<noteq> []" and "\<forall>c\<in>set d. is_digit 10 c"
    and "length (op @ [CHR 0x20] @ a @ '','' @ d @ [newline]) < LINELEN"
  shows "process_trace_file c s E b B ((op @ [CHR 0x20] @ a @ '','' @ d @ [newline]) @ rest) stats =
     (let addr = of_nat (digits_val 16 a)
      in if 1024 < digits_val 10 d then (1, c, stats)
         else process_trace_file
                (fst (simulate c (addr_tag s b addr) (addr_set s b addr) E B stats op))
                s E b B rest
                (snd (simulate c (addr_tag s b addr) (addr_set s b addr) E B stats op)))"
proof -
  let ?l = "op @ [CHR 0x20] @ a @ '','' @ d"
  have d16: "\<forall>c\<in>set d. is_digit 16 c" using assms(6) by (auto intro: is_digit_10_16)
  have "newline \<notin> set ?l"
    using assms(1,3) d16 by (auto simp: newline_def dest: digit_not_separator(3))
  moreover have "length (?l @ [newline]) < LINELEN" using assms(7) by simp
  ultimately have "fgets LINELEN ((?l @ [newline]) @ rest) = Some (?l @ [newline], rest)"
    by (rule fgets_line)
  then have fg: "fgets LINELEN ((op @ [CHR 0x20] @ a @ '','' @ d @ [newline]) @ rest) =
      Some (op @ [CHR 0x20] @ a @ '','' @ d @ [newline], rest)"
    by simp
  have inrange: "\<not> 18446744073709551615 < digits_val 16 a" using assms(4) by simp
  have tl: "trace_line s b (op @ [CHR 0x20] @ a @ '','' @ d @ [newline]) =
     (let addr = of_nat (digits_val 16 a)
      in if 1024 < digits_val 10 d then None
         else Some (op, addr_tag s b addr, addr_set s b addr))"
    unfolding trace_line_well_formed [OF assms(1,2,3,5,6), of s b]
    by (simp only: inrange if_False)
  show ?thesis
    by (subst process_trace_file.simps)
       (simp only: fg tl option.case prod.case Let_def split: if_splits prod.splits, simp split: prod.splits)
qed

theorem size_validation_witness:
  "(''L'' = ''L'' \<or> ''L'' = ''S'') \<and> ''1'' \<noteq> [] \<and> is_digit 16 CHR ''1'' \<and>
   digits_val 16 ''1'' \<le> 18446744073709551615 \<and>
   ''0'' \<noteq> [] \<and> is_digit 10 CHR ''0'' \<and> length ''L 1,0\<newline>'' < LINELEN \<and>
   process_trace_file [init_line, init_line] 0 2 0 1 ''L 1,0\<newline>'' init_stats =
     (0, [\<lparr>valid = 1, tag = 1, dirty = 0\<rparr>, init_line],
      \<lparr>hits = 0, misses = 1, evictions = 0, dirty_bytes = 0, dirty_evictions = 0\<rparr>) \<and>
   process_trace_file [init_line, init_line] 0 2 0 1 ''L 1,1025\<newline>'' init_stats =
     (1, [init_line, init_line], init_stats)"
proof -
  have h: "''L'' = ''L'' \<or> ''L'' = ''S''" "''1'' \<noteq> []" "\<forall>c\<in>set ''1''. is_digit 16 c"
    "''0'' \<noteq> []" "\<forall>c\<in>set ''0''. is_digit 10 c"
    "''1025'' \<noteq> []" "\<forall>c\<in>set ''1025''. is_digit 10 c"
    "length (''L'' @ [CHR 0x20] @ ''1'' @ '','' @ ''0'' @ [newline]) < LINELEN"
    "length (''L'' @ [CHR 0x20] @ ''1'' @ '','' @ ''1025'' @ [newline]) < LINELEN"
    "digits_val 16 ''1'' \<le> 18446744073709551615"
    by (simp_all add: is_digit_def digit_val_def digits_val_def LINELEN_def)
  have stop: "process_trace_file c s E b B [] stats = (0, c, stats)" for c s E b B stats
    by (subst process_trace_file.simps) (simp add: fgets_def)
  from size_validation [OF h(1,2,3,10,4,5,8), of "[init_line, init_line]" 0 2 0 1 "[]" init_stats]
  have "process_trace_file [init_line, init_line] 0 2 0 1 ''L 1,0\<newline>'' init_stats =
     (0, [\<lparr>valid = 1, tag = 1, dirty = 0\<rparr>, init_line],
      \<lparr>hits = 0, misses = 1, evictions = 0, dirty_bytes = 0, dirty_evictions = 0\<rparr>)"
    by (simp add: stop digits_val_def digit_val_def newline_def addr_tag_def addr_set_def
        engine_defs init_line_def init_stats_def)
  moreover
  from size_validation [OF h(1,2,3,10,6,7,9), of "[init_line, init_line]" 0 2 0 1 "[]" init_stats]
  have "process_trace_file [init_line, init_line] 0 2 0 1 ''L 1,1025\<newline>'' init_stats =
     (1, [init_line, init_line], init_stats)"
    by (simp add: digits_val_def digit_val_def newline_def)
  moreover have "is_digit 16 CHR ''1''" "is_digit 10 CHR ''0''" "length ''L 1,0\<newline>'' < LINELEN"
    by (simp_all add: is_digit_def digit_val_def LINELEN_def)
  ultimately show ?thesis using h(10) by simp
qed

lemma size_zero_run:
  "process_trace_file [init_line, init_line] 0 2 0 1 ''L 1,0\<newline>'' init_stats =
     (0, [\<lparr>valid = 1, tag = 1, dirty = 0\<rparr>, init_line],
      \<lparr>hits = 0, misses = 1, evictions = 0, dirty_bytes = 0, dirty_evictions = 0\<rparr>)"
  by (simp add: run_defs)

text \<open>
  Claim C4 as stated: the trace \<open>L 1,0\<close> is not rejected. With \<open>s = 0\<close>, \<open>E = 2\<close>,
  \<open>b = 0\<close> the run ends with a summary that counts one miss.
\<close>

theorem size_zero_counterexample:
  "main 0 2 0 ''L 1,0\<newline>'' =
     Summary \<lparr>hits = 0, misses = 1, evictions = 0, dirty_bytes = 0, dirty_evictions = 0\<rparr>"
  unfolding main_def Let_def geometry_numerals init_cache_1_2 size_zero_run
  by (simp add: count_dirty.simps init_line_def INT_MAX_def)


lemma overflow_run:
  "process_trace_file [init_line, init_line] 0 2 0 1
      ''L 10000000000000000,1\<newline>'' init_stats =
     (0, [\<lparr>valid = 1, tag = 0xFFFFFFFFFFFFFFFF, dirty = 0\<rparr>, init_line],
      \<lparr>hits = 0, misses = 1, evictions = 0, dirty_bytes = 0, dirty_evictions = 0\<rparr>)"
  by (simp add: run_defs)

text \<open>
  Claim C5 says that an address numeral above \<open>2^64 - 1\<close> is rejected. \<open>strtoull\<close>
  returns \<open>ULLONG_MAX\<close> for such a numeral, and the test \<open>addr > MAXADDR\<close> of the parser
  is never true of an \<open>unsigned long long\<close>; \<open>errno\<close> is not read. The line
  \<open>L 10000000000000000,1\<close> (the numeral is \<open>2^64\<close>) is accepted as a load of address
  \<open>0xFFFFFFFFFFFFFFFF\<close>, and the run ends with a summary that counts one miss.
\<close>

theorem out_of_range_address_accepted:
  "strtoull ''10000000000000000'' 16 = (0xFFFFFFFFFFFFFFFF, []) \<and>
   process_trace_file (init_cache 1 2) 0 2 0 1 ''L 10000000000000000,1\<newline>'' init_stats =
     (0, [\<lparr>valid = 1, tag = 0xFFFFFFFFFFFFFFFF, dirty = 0\<rparr>, init_line],
      \<lparr>hits = 0, misses = 1, evictions = 0, dirty_bytes = 0, dirty_evictions = 0\<rparr>) \<and>
   main 0 2 0 ''L 10000000000000000,1\<newline>'' =
     Summary \<lparr>hits = 0, misses = 1, evictions = 0, dirty_bytes = 0, dirty_evictions = 0\<rparr>"
proof -
  have "main 0 2 0 ''L 10000000000000000,1\<newline>'' =
     Summary \<lparr>hits = 0, misses = 1, evictions = 0, dirty_bytes = 0, dirty_evictions = 0\<rparr>"
    unfolding main_def Let_def geometry_numerals init_cache_1_2 overflow_run
    by (simp add: count_dirty.simps init_line_def INT_MAX_def)
  moreover have "strtoull ''10000000000000000'' 16 = (0xFFFFFFFFFFFFFFFF, [])"
    by (simp add: parse_defs)
  ultimately show ?thesis
    unfolding init_cache_1_2 overflow_run by simp
qed

end
